theory Spec2Isabelle
  imports Complex_Main "HOL-Library.Sublist"
begin

section \<open>JavaScript values used by the pipeline\<close>

text \<open>
  A JavaScript string is a sequence of UTF-16 code units; it is modelled as the list of
  these code units. Equality of strings (\<open>===\<close>) is equality of the lists, a template
  literal is concatenation, and \<open>String.prototype.includes\<close> is a search for a contiguous
  sublist. Amounts are JavaScript numbers; they are modelled as exact real numbers, so
  rounding of IEEE doubles is outside the model.
\<close>

type_synonym jsstring = "nat list"

datatype error = TypeError

text \<open>Decimal digits of a non-negative integer, most significant first.\<close>

function digitsOf :: "nat \<Rightarrow> jsstring" where
  "digitsOf n = (if n < 10 then [48 + n] else digitsOf (n div 10) @ [48 + n mod 10])"
  by pat_completeness auto
termination
  by (relation "measure id") auto

declare digitsOf.simps [simp del]

text \<open>\<open>Number.prototype.toString\<close> (and \<open>${n}\<close>) of an integer: a minus sign (code unit 45)
  before the digits of a negative number.\<close>

definition numToString :: "int \<Rightarrow> jsstring" where
  "numToString i = (if i < 0 then 45 # digitsOf (nat (- i)) else digitsOf (nat i))"

definition padStart :: "nat \<Rightarrow> nat \<Rightarrow> jsstring \<Rightarrow> jsstring" where
  "padStart n c s = replicate (n - length s) c @ s"

fun includesStr :: "jsstring \<Rightarrow> jsstring \<Rightarrow> bool" where
  "includesStr [] sub = (sub = [])"
| "includesStr (c # cs) sub = (prefix sub (c # cs) \<or> includesStr cs sub)"

text \<open>
  A \<open>Date\<close> is read only through \<open>getFullYear\<close>, \<open>getMonth\<close> (0 to 11) and \<open>getDate\<close>, in
  local time. \<open>Math.min\<close> and \<open>Math.max\<close> compare the time stamps of the dates; the time
  stamp grows with the local calendar fields, and only the year and the month of the
  extreme dates are read, so the comparison is made on (year, month, day).
\<close>

record jsdate =
  getFullYear :: int
  getMonth :: nat
  getDate :: nat

definition earlier :: "jsdate \<Rightarrow> jsdate \<Rightarrow> bool" where
  "earlier a b =
     (getFullYear a < getFullYear b \<or>
      (getFullYear a = getFullYear b \<and>
       (getMonth a < getMonth b \<or> (getMonth a = getMonth b \<and> getDate a < getDate b))))"

fun mathMin :: "jsdate list \<Rightarrow> jsdate \<Rightarrow> jsdate" where
  "mathMin [] acc = acc"
| "mathMin (d # ds) acc = mathMin ds (if earlier d acc then d else acc)"

fun mathMax :: "jsdate list \<Rightarrow> jsdate \<Rightarrow> jsdate" where
  "mathMax [] acc = acc"
| "mathMax (d # ds) acc = mathMax ds (if earlier acc d then d else acc)"

text \<open>
  \<open>new Date(y, m, 1)\<close>: a year from 0 to 99 means 1900 + y, and a month index beyond 11
  carries into the year. \<open>setMonth\<close> on the first day of a month carries the same way
  (without the two-digit rule).
\<close>

definition newDate :: "int \<Rightarrow> nat \<Rightarrow> jsdate" where
  "newDate y m =
     \<lparr>getFullYear = (if 0 \<le> y \<and> y \<le> 99 then 1900 + y else y) + int (m div 12),
      getMonth = m mod 12, getDate = 1\<rparr>"

definition setMonth :: "jsdate \<Rightarrow> nat \<Rightarrow> jsdate" where
  "setMonth d m = d\<lparr>getFullYear := getFullYear d + int (m div 12), getMonth := m mod 12\<rparr>"

section \<open>Data model\<close>

record dataItem =
  date :: jsdate
  amount :: real
  category :: jsstring

definition INITIAL_BALANCE :: real where
  "INITIAL_BALANCE = 1016000"

definition getWeekIndex :: "nat \<Rightarrow> nat" where
  "getWeekIndex day = (if day \<le> 7 then 1 else if day \<le> 14 then 2 else if day \<le> 21 then 3 else 4)"

record weekBucket =
  year :: int
  month :: nat
  week :: nat
  key :: jsstring
  income :: real
  expense :: real
  emergencyFund :: real

record balancedWeek = weekBucket +
  "opening" :: real
  closing :: real
  name :: jsstring

datatype field = Income | Expense | EmergencyFund

section \<open>The weekly sequence (\<open>weeklyFullData\<close>)\<close>

text \<open>The key \<open>`${y}-${m.toString().padStart(2, '0')}-W${w}`\<close>; 45 is the hyphen, 48 the
  digit zero and 87 the letter W.\<close>

definition weekKey :: "int \<Rightarrow> nat \<Rightarrow> nat \<Rightarrow> jsstring" where
  "weekKey y m w =
     numToString y @ [45] @ padStart 2 48 (numToString (int m)) @ [45, 87] @ numToString (int w)"

definition newBucket :: "int \<Rightarrow> nat \<Rightarrow> nat \<Rightarrow> weekBucket" where
  "newBucket y m w =
     \<lparr>year = y, month = m, week = w, key = weekKey y m w,
      income = 0, expense = 0, emergencyFund = 0\<rparr>"

text \<open>The loop \<open>while (curr <= end)\<close>: four buckets for the month of \<open>curr\<close>, then
  \<open>curr.setMonth(curr.getMonth() + 1)\<close>.\<close>

function weeksLoop :: "jsdate \<Rightarrow> jsdate \<Rightarrow> weekBucket list \<Rightarrow> weekBucket list" where
  "weeksLoop cur fin weeks =
     (if \<not> earlier fin cur
      then weeksLoop (setMonth cur (getMonth cur + 1)) fin
             (weeks @ map (newBucket (getFullYear cur) (getMonth cur + 1)) [1, 2, 3, 4])
      else weeks)"
  by pat_completeness auto
termination
proof (relation "measure (\<lambda>(cur, fin, weeks).
    nat (12 * getFullYear fin + int (min (getMonth fin) 11)
         - (12 * getFullYear cur + int (min (getMonth cur) 11)) + 1))", goal_cases)
  case 1
  show ?case by simp
next
  case (2 cur fin weeks)
  have "(getMonth cur + 1) div 12 = 0 \<and> getMonth cur < 11 \<or> 1 \<le> (getMonth cur + 1) div 12"
    by (cases "getMonth cur < 11") (auto simp: div_greater_zero_iff Suc_le_eq)
  with 2 show ?case
    by (auto simp: earlier_def setMonth_def min_def not_less not_le split: if_splits)
qed

declare weeksLoop.simps [simp del]

text \<open>The two category markers of the exclusion rule, as code units: U+671F U+521D U+4F59
  U+989D (opening balance) and U+73B0 U+91D1 U+5907 U+7528 (cash reserve).\<close>

definition lit_openingBalance :: jsstring where
  "lit_openingBalance = [26399, 21021, 20313, 39069]"

definition lit_cashReserve :: jsstring where
  "lit_cashReserve = [29616, 37329, 22791, 29992]"

definition addField :: "field \<Rightarrow> real \<Rightarrow> weekBucket \<Rightarrow> weekBucket" where
  "addField f a w =
     (case f of
        Income \<Rightarrow> w\<lparr>income := income w + a\<rparr>
      | Expense \<Rightarrow> w\<lparr>expense := expense w + a\<rparr>
      | EmergencyFund \<Rightarrow> w\<lparr>emergencyFund := emergencyFund w + a\<rparr>)"

text \<open>\<open>weeks.find(w => w.key === key)\<close> and, when a bucket is found,
  \<open>target[field] += amount\<close> on that bucket (the first one with the key).\<close>

fun addToFirst :: "jsstring \<Rightarrow> field \<Rightarrow> real \<Rightarrow> weekBucket list \<Rightarrow> weekBucket list" where
  "addToFirst k f a [] = []"
| "addToFirst k f a (w # ws) =
     (if key w = k then addField f a w # ws else w # addToFirst k f a ws)"

definition itemKey :: "dataItem \<Rightarrow> jsstring" where
  "itemKey item =
     weekKey (getFullYear (date item)) (getMonth (date item) + 1)
       (getWeekIndex (getDate (date item)))"

definition excluded :: "field \<Rightarrow> dataItem \<Rightarrow> bool" where
  "excluded f item =
     (f = Income \<and>
      (includesStr (category item) lit_openingBalance \<or> includesStr (category item) lit_cashReserve))"

definition populateItem :: "field \<Rightarrow> weekBucket list \<Rightarrow> dataItem \<Rightarrow> weekBucket list" where
  "populateItem f weeks item =
     (if excluded f item then weeks else addToFirst (itemKey item) f (amount item) weeks)"

definition populate :: "dataItem list \<Rightarrow> field \<Rightarrow> weekBucket list \<Rightarrow> weekBucket list" where
  "populate items f weeks = foldl (populateItem f) weeks items"

text \<open>The name \<open>`${w.year}<U+5E74>${w.month}<U+6708> <U+7B2C>${w.week}<U+5468>`\<close>.\<close>

definition weekName :: "int \<Rightarrow> nat \<Rightarrow> nat \<Rightarrow> jsstring" where
  "weekName y m w =
     numToString y @ [24180] @ numToString (int m) @ [26376, 32, 31532]
       @ numToString (int w) @ [21608]"

text \<open>The rolling balance: \<open>weeks.map\<close> with the variable \<open>bal\<close> threaded through.\<close>

fun rollBalances :: "real \<Rightarrow> weekBucket list \<Rightarrow> balancedWeek list" where
  "rollBalances bal [] = []"
| "rollBalances bal (w # ws) =
     \<lparr>year = year w, month = month w, week = week w, key = key w,
      income = income w, expense = expense w, emergencyFund = emergencyFund w,
      opening = bal, closing = bal + income w - expense w,
      name = weekName (year w) (month w) (week w)\<rparr>
     # rollBalances (bal + income w - expense w) ws"

text \<open>The buckets before the balance pass: empty without any date and when the guard on
  the years fires, else the skeleton of the months from \<open>curr\<close> to \<open>end\<close>, populated with
  the three series in the order of the source.\<close>

definition rangeStart :: "jsdate list \<Rightarrow> jsdate" where
  "rangeStart allDates =
     (let minDate = mathMin (tl allDates) (hd allDates)
      in newDate (getFullYear minDate) (getMonth minDate))"

definition rangeEnd :: "jsdate list \<Rightarrow> jsdate \<Rightarrow> jsdate" where
  "rangeEnd allDates now =
     (let maxDate = mathMax allDates now
      in newDate (getFullYear maxDate) (getMonth maxDate))"

definition weekBuckets ::
  "dataItem list \<Rightarrow> dataItem list \<Rightarrow> dataItem list \<Rightarrow> jsdate \<Rightarrow> weekBucket list" where
  "weekBuckets incomes expenses emergencyFunds now =
     (let allDates = map date (incomes @ expenses @ emergencyFunds)
      in if allDates = [] then []
         else
           let cur = rangeStart allDates; fin = rangeEnd allDates now
           in if getFullYear fin - getFullYear cur > 10 then []
              else populate emergencyFunds EmergencyFund
                     (populate expenses Expense
                       (populate incomes Income (weeksLoop cur fin []))))"

definition weeklyFullData ::
  "dataItem list \<Rightarrow> dataItem list \<Rightarrow> dataItem list \<Rightarrow> jsdate \<Rightarrow> balancedWeek list" where
  "weeklyFullData incomes expenses emergencyFunds now =
     rollBalances INITIAL_BALANCE (weekBuckets incomes expenses emergencyFunds now)"

section \<open>Aggregation (\<open>aggregatedData\<close>)\<close>

datatype viewType = Weekly | SemiMonthly | Monthly

text \<open>The two half-month markers: U+4E0A U+534A U+6708 (first half) and U+4E0B U+534A
  U+6708 (second half).\<close>

definition lit_firstHalf :: jsstring where
  "lit_firstHalf = [19978, 21322, 26376]"

definition lit_secondHalf :: jsstring where
  "lit_secondHalf = [19979, 21322, 26376]"

text \<open>The object stored in \<open>map[key]\<close>. Its fields carry the prefix \<open>p_\<close> where the name
  is already a field of a week.\<close>

record periodGroup =
  p_name :: jsstring
  p_year :: int
  p_month :: nat
  subType :: jsstring
  p_income :: real
  p_expense :: real
  p_emergencyFund :: real
  p_opening :: real
  weeks :: "balancedWeek list"

text \<open>The object \<open>{ ...it, emergencyFund: efValue, closing: ..., net: ... }\<close>.\<close>

record period = periodGroup +
  p_closing :: real
  net :: real

text \<open>An element of \<open>aggregatedData\<close> is a week as it stands (view \<open>weekly\<close>) or a period
  object (the other views). A week has no field \<open>net\<close>, \<open>subType\<close> or \<open>weeks\<close>: reading one
  gives \<open>undefined\<close>, here \<open>None\<close>.\<close>

datatype entry = WeekEntry balancedWeek | PeriodEntry period

fun entryName :: "entry \<Rightarrow> jsstring" where
  "entryName (WeekEntry w) = name w"
| "entryName (PeriodEntry p) = p_name p"

fun entryYear :: "entry \<Rightarrow> int" where
  "entryYear (WeekEntry w) = year w"
| "entryYear (PeriodEntry p) = p_year p"

fun entryMonth :: "entry \<Rightarrow> nat" where
  "entryMonth (WeekEntry w) = month w"
| "entryMonth (PeriodEntry p) = p_month p"

fun entryIncome :: "entry \<Rightarrow> real" where
  "entryIncome (WeekEntry w) = income w"
| "entryIncome (PeriodEntry p) = p_income p"

fun entryExpense :: "entry \<Rightarrow> real" where
  "entryExpense (WeekEntry w) = expense w"
| "entryExpense (PeriodEntry p) = p_expense p"

fun entryEmergencyFund :: "entry \<Rightarrow> real" where
  "entryEmergencyFund (WeekEntry w) = emergencyFund w"
| "entryEmergencyFund (PeriodEntry p) = p_emergencyFund p"

fun entryOpening :: "entry \<Rightarrow> real" where
  "entryOpening (WeekEntry w) = opening w"
| "entryOpening (PeriodEntry p) = p_opening p"

fun entryClosing :: "entry \<Rightarrow> real" where
  "entryClosing (WeekEntry w) = closing w"
| "entryClosing (PeriodEntry p) = p_closing p"

fun entryNet :: "entry \<Rightarrow> real option" where
  "entryNet (WeekEntry w) = None"
| "entryNet (PeriodEntry p) = Some (net p)"

fun entryWeeks :: "entry \<Rightarrow> balancedWeek list option" where
  "entryWeeks (WeekEntry w) = None"
| "entryWeeks (PeriodEntry p) = Some (weeks p)"

fun entrySubType :: "entry \<Rightarrow> jsstring option" where
  "entrySubType (WeekEntry w) = None"
| "entrySubType (PeriodEntry p) = Some (subType p)"

text \<open>\<open>sub\<close>, \<open>key\<close> and the name of a new group, as the body of \<open>forEach\<close> computes them.\<close>

definition subOf :: "viewType \<Rightarrow> balancedWeek \<Rightarrow> jsstring" where
  "subOf vt w =
     (if vt = SemiMonthly then (if week w \<le> 2 then lit_firstHalf else lit_secondHalf) else [])"

definition groupKey :: "viewType \<Rightarrow> balancedWeek \<Rightarrow> jsstring" where
  "groupKey vt w =
     (if vt = SemiMonthly
      then numToString (year w) @ [45] @ numToString (int (month w)) @ [45] @ subOf vt w
      else numToString (year w) @ [45] @ numToString (int (month w)))"

definition groupName :: "viewType \<Rightarrow> balancedWeek \<Rightarrow> jsstring" where
  "groupName vt w =
     (if vt = SemiMonthly
      then numToString (year w) @ [24180] @ numToString (int (month w)) @ [26376, 32] @ subOf vt w
      else numToString (year w) @ [24180] @ numToString (int (month w)) @ [26376])"

definition newGroup :: "viewType \<Rightarrow> balancedWeek \<Rightarrow> periodGroup" where
  "newGroup vt w =
     \<lparr>p_name = groupName vt w, p_year = year w, p_month = month w, subType = subOf vt w,
      p_income = 0, p_expense = 0, p_emergencyFund = 0, p_opening = opening w, weeks = []\<rparr>"

text \<open>
  The object \<open>map\<close> is the list of its (key, value) pairs in the order of insertion, which
  is the order of \<open>Object.values\<close>: a key holds a hyphen, so it is never an array index.
  \<open>updateGroup\<close> is the assignment to the fields of \<open>map[key]\<close>.
\<close>

fun updateGroup ::
  "jsstring \<Rightarrow> (periodGroup \<Rightarrow> periodGroup) \<Rightarrow> (jsstring \<times> periodGroup) list
     \<Rightarrow> (jsstring \<times> periodGroup) list" where
  "updateGroup k f [] = []"
| "updateGroup k f ((k', g) # m) =
     (if k' = k then (k', f g) # m else (k', g) # updateGroup k f m)"

text \<open>The three updates of \<open>map[key]\<close> for a week: the two sums and \<open>weeks.push(w)\<close>.\<close>

definition addTo :: "balancedWeek \<Rightarrow> periodGroup \<Rightarrow> periodGroup" where
  "addTo w g =
     g\<lparr>p_income := p_income g + income w, p_expense := p_expense g + expense w,
       weeks := weeks g @ [w]\<rparr>"

definition addWeek ::
  "viewType \<Rightarrow> (jsstring \<times> periodGroup) list \<Rightarrow> balancedWeek
     \<Rightarrow> (jsstring \<times> periodGroup) list" where
  "addWeek vt m w =
     (let k = groupKey vt w;
          m1 = (if map_of m k = None then m @ [(k, newGroup vt w)] else m)
      in updateGroup k (addTo w) m1)"

definition groupWeeks :: "viewType \<Rightarrow> balancedWeek list \<Rightarrow> (jsstring \<times> periodGroup) list" where
  "groupWeeks vt weeklyData = foldl (addWeek vt) [] weeklyData"

text \<open>\<open>weeklyFullData.find(w => w.year === y && w.month === m && w.week === k)\<close> followed by
  \<open>w ? w.emergencyFund : 0\<close>.\<close>

definition weekFund :: "balancedWeek list \<Rightarrow> int \<Rightarrow> nat \<Rightarrow> nat \<Rightarrow> real" where
  "weekFund weeklyData y m k =
     (case find (\<lambda>w. year w = y \<and> month w = m \<and> week w = k) weeklyData of
        Some w \<Rightarrow> emergencyFund w
      | None \<Rightarrow> 0)"

definition efValue :: "viewType \<Rightarrow> balancedWeek list \<Rightarrow> periodGroup \<Rightarrow> real" where
  "efValue vt weeklyData it =
     (if vt = SemiMonthly
      then (if subType it = lit_firstHalf then weekFund weeklyData (p_year it) (p_month it) 2
            else if subType it = lit_secondHalf then weekFund weeklyData (p_year it) (p_month it) 4
            else 0)
      else if vt = Monthly then weekFund weeklyData (p_year it) (p_month it) 4
      else 0)"

text \<open>The callback of the final \<open>map\<close>. \<open>it.weeks[it.weeks.length - 1]\<close> is \<open>undefined\<close> for
  an empty \<open>weeks\<close>, and reading \<open>closing\<close> from it throws.\<close>

definition toPeriod :: "viewType \<Rightarrow> balancedWeek list \<Rightarrow> periodGroup \<Rightarrow> period" where
  "toPeriod vt weeklyData it =
     \<lparr>p_name = p_name it, p_year = p_year it, p_month = p_month it, subType = subType it,
      p_income = p_income it, p_expense = p_expense it,
      p_emergencyFund = efValue vt weeklyData it, p_opening = p_opening it,
      weeks = weeks it, p_closing = closing (last (weeks it)),
      net = p_income it - p_expense it\<rparr>"

definition finishGroup :: "viewType \<Rightarrow> balancedWeek list \<Rightarrow> periodGroup \<Rightarrow> error + entry" where
  "finishGroup vt weeklyData it =
     (if weeks it = [] then Inl TypeError
      else Inr (PeriodEntry (toPeriod vt weeklyData it)))"

fun collect :: "(error + 'a) list \<Rightarrow> error + 'a list" where
  "collect [] = Inr []"
| "collect (Inl e # rs) = Inl e"
| "collect (Inr x # rs) = (case collect rs of Inl e \<Rightarrow> Inl e | Inr xs \<Rightarrow> Inr (x # xs))"

definition aggregatedData :: "viewType \<Rightarrow> balancedWeek list \<Rightarrow> error + entry list" where
  "aggregatedData vt weeklyData =
     (if vt = Weekly then Inr (map WeekEntry weeklyData)
      else collect (map (finishGroup vt weeklyData) (map snd (groupWeeks vt weeklyData))))"

section \<open>Anchor and window\<close>

definition getPeriodNameFromDate :: "jsdate \<Rightarrow> viewType \<Rightarrow> jsstring" where
  "getPeriodNameFromDate d vt =
     (let y = getFullYear d; m = getMonth d + 1; dd = getDate d
      in if vt = Monthly then numToString y @ [24180] @ numToString (int m) @ [26376]
         else if vt = SemiMonthly
         then numToString y @ [24180] @ numToString (int m) @ [26376, 32]
                @ (if getWeekIndex dd \<le> 2 then lit_firstHalf else lit_secondHalf)
         else numToString y @ [24180] @ numToString (int m) @ [26376, 32, 31532]
                @ numToString (int (getWeekIndex dd)) @ [21608])"

text \<open>\<open>Array.prototype.findIndex\<close>: the first index whose element satisfies the predicate,
  or -1.\<close>

fun findIndexFrom :: "int \<Rightarrow> ('a \<Rightarrow> bool) \<Rightarrow> 'a list \<Rightarrow> int" where
  "findIndexFrom i P [] = - 1"
| "findIndexFrom i P (x # xs) = (if P x then i else findIndexFrom (i + 1) P xs)"

definition findIndex :: "('a \<Rightarrow> bool) \<Rightarrow> 'a list \<Rightarrow> int" where
  "findIndex P xs = findIndexFrom 0 P xs"

text \<open>\<open>xs[i]\<close>: \<open>undefined\<close> (here \<open>None\<close>) outside the array.\<close>

definition elemAt :: "'a list \<Rightarrow> int \<Rightarrow> 'a option" where
  "elemAt xs i = (if 0 \<le> i \<and> i < int (length xs) then Some (xs ! nat i) else None)"

text \<open>\<open>xs.slice(-4)\<close> and \<open>xs.slice(i, i + 4)\<close> for an index \<open>i\<close> of the array.\<close>

definition sliceLast4 :: "'a list \<Rightarrow> 'a list" where
  "sliceLast4 xs = drop (length xs - 4) xs"

definition slice4 :: "'a list \<Rightarrow> int \<Rightarrow> 'a list" where
  "slice4 xs i = take 4 (drop (nat i) xs)"

text \<open>The state of the component that the anchor and the window depend on.\<close>

record uiState =
  selectedFilter :: jsstring
  isDataLoaded :: bool
  dragStartX :: "real option"
  isDragging :: bool

text \<open>The effect that selects the default anchor: it returns the new \<open>selectedFilter\<close>.\<close>

definition defaultAnchor :: "entry list \<Rightarrow> viewType \<Rightarrow> jsdate \<Rightarrow> jsstring \<Rightarrow> jsstring" where
  "defaultAnchor aggregated vt now selected =
     (if length aggregated > 0
      then (let todayName = getPeriodNameFromDate now vt
            in if list_ex (\<lambda>d. entryName d = todayName) aggregated then todayName
               else entryName (last aggregated))
      else selected)"

definition displayBlocks :: "bool \<Rightarrow> entry list \<Rightarrow> jsstring \<Rightarrow> entry list" where
  "displayBlocks loaded aggregated selected =
     (if \<not> loaded then []
      else (let idx = findIndex (\<lambda>d. entryName d = selected) aggregated
            in if idx = - 1 then sliceLast4 aggregated else slice4 aggregated idx))"

text \<open>\<open>setSelectedFilter(aggregatedData[i].name)\<close>: reading \<open>name\<close> from \<open>undefined\<close>
  throws.\<close>

definition selectAt :: "entry list \<Rightarrow> int \<Rightarrow> uiState \<Rightarrow> error + uiState" where
  "selectAt aggregated i s =
     (case elemAt aggregated i of
        None \<Rightarrow> Inl TypeError
      | Some d \<Rightarrow> Inr (s\<lparr>selectedFilter := entryName d\<rparr>))"

definition handleMouseMove :: "entry list \<Rightarrow> real \<Rightarrow> uiState \<Rightarrow> error + uiState" where
  "handleMouseMove aggregated currentX s =
     (case dragStartX s of
        None \<Rightarrow> Inr s
      | Some startX \<Rightarrow>
          if \<not> isDragging s \<or> \<not> isDataLoaded s then Inr s
          else
            let diff = currentX - startX; threshold = 100
            in if \<bar>diff\<bar> > threshold
               then
                 let currentIndex = findIndex (\<lambda>d. entryName d = selectedFilter s) aggregated
                 in (case (if diff > 0
                           then (if currentIndex > 0 then selectAt aggregated (currentIndex - 1) s
                                 else Inr s)
                           else (if currentIndex < int (length aggregated) - 1
                                 then selectAt aggregated (currentIndex + 1) s
                                 else Inr s)) of
                       Inl e \<Rightarrow> Inl e
                     | Inr s' \<Rightarrow> Inr (s'\<lparr>dragStartX := Some currentX\<rparr>))
               else Inr s)"

section \<open>Notions used in the statements\<close>

subsection \<open>The computed range and its buckets\<close>

text \<open>
  Months are counted from year 0: \<open>monthOrd\<close> of a date is the number of its month. The
  computed range of an input runs from the month of \<open>rangeStart\<close> to the month of
  \<open>rangeEnd\<close>; \<open>monthBuckets k\<close> are the four empty buckets of month number \<open>k\<close>.
\<close>

definition monthOrd :: "jsdate \<Rightarrow> int" where
  "monthOrd d = 12 * getFullYear d + int (getMonth d)"

definition monthBuckets :: "int \<Rightarrow> weekBucket list" where
  "monthBuckets k = map (newBucket (k div 12) (nat (k mod 12) + 1)) [1, 2, 3, 4]"

definition allDatesOf :: "dataItem list \<Rightarrow> dataItem list \<Rightarrow> dataItem list \<Rightarrow> jsdate list" where
  "allDatesOf incomes expenses emergencyFunds = map date (incomes @ expenses @ emergencyFunds)"

text \<open>The guard \<open>end.getFullYear() - curr.getFullYear() > 10\<close> of an input.\<close>

definition guardFires :: "jsdate list \<Rightarrow> jsdate \<Rightarrow> bool" where
  "guardFires allDates now =
     (getFullYear (rangeEnd allDates now) - getFullYear (rangeStart allDates) > 10)"

text \<open>The identity of a bucket: its year, month and week of the month.\<close>

definition ident :: "'a weekBucket_scheme \<Rightarrow> int \<times> nat \<times> nat" where
  "ident w = (year w, month w, week w)"

definition monthIdents :: "int \<Rightarrow> (int \<times> nat \<times> nat) list" where
  "monthIdents k = map (\<lambda>w. (k div 12, nat (k mod 12) + 1, w)) [1, 2, 3, 4]"

text \<open>The buckets of the computed range before any amount is added.\<close>

definition skeleton :: "jsdate list \<Rightarrow> jsdate \<Rightarrow> weekBucket list" where
  "skeleton allDates now =
     concat (map monthBuckets [monthOrd (rangeStart allDates)..monthOrd (rangeEnd allDates now)])"

text \<open>The items of a series that count for the bucket with key \<open>k\<close>: those that the
  exclusion rule keeps and whose key is \<open>k\<close>.\<close>

definition matching :: "field \<Rightarrow> dataItem list \<Rightarrow> jsstring \<Rightarrow> dataItem list" where
  "matching f items k = filter (\<lambda>it. \<not> excluded f it \<and> itemKey it = k) items"

text \<open>An item is on a bucket when its date has the year, the month and the week of the
  month of the bucket. \<open>getMonth\<close> of a date is at most 11.\<close>

definition onBucket :: "dataItem \<Rightarrow> 'a weekBucket_scheme \<Rightarrow> bool" where
  "onBucket it b =
     (getFullYear (date it) = year b \<and> getMonth (date it) + 1 = month b \<and>
      getWeekIndex (getDate (date it)) = week b)"

definition validItems :: "dataItem list \<Rightarrow> bool" where
  "validItems items = list_all (\<lambda>it. getMonth (date it) < 12) items"

text \<open>The number of months from the start of the computed range to its end.\<close>

definition spanMonths :: "jsdate list \<Rightarrow> jsdate \<Rightarrow> int" where
  "spanMonths allDates now = monthOrd (rangeEnd allDates now) - monthOrd (rangeStart allDates)"

subsection \<open>Groups, results and the anchor\<close>

text \<open>What the grouping holds for a key after the weeks \<open>ws\<close>: the weeks with this key in
  their order, the sums over them, and the fields taken from the first of them.\<close>

definition groupOf :: "viewType \<Rightarrow> balancedWeek list \<Rightarrow> jsstring \<Rightarrow> periodGroup \<Rightarrow> bool" where
  "groupOf vt ws k g \<longleftrightarrow>
     weeks g = filter (\<lambda>w. groupKey vt w = k) ws \<and> weeks g \<noteq> [] \<and>
     p_income g = sum_list (map income (weeks g)) \<and>
     p_expense g = sum_list (map expense (weeks g)) \<and>
     p_emergencyFund g = 0 \<and>
     p_opening g = opening (hd (weeks g)) \<and>
     p_year g = year (hd (weeks g)) \<and>
     p_month g = month (hd (weeks g)) \<and>
     subType g = subOf vt (hd (weeks g)) \<and>
     p_name g = groupName vt (hd (weeks g)) \<and>
     groupKey vt (hd (weeks g)) = k"

text \<open>The elements of a result (none when the computation threw), and for an element the sum
  of the emergency funds of its constituent weeks.\<close>

definition entriesOf :: "error + entry list \<Rightarrow> entry list" where
  "entriesOf r = (case r of Inr ps \<Rightarrow> ps | Inl e \<Rightarrow> [])"

definition weeksFundSum :: "entry \<Rightarrow> real option" where
  "weeksFundSum x = map_option (\<lambda>ws. sum_list (map emergencyFund ws)) (entryWeeks x)"

text \<open>The index that the lookup by name gives for the current anchor.\<close>

definition anchorIndex :: "entry list \<Rightarrow> jsstring \<Rightarrow> int" where
  "anchorIndex aggregated selected = findIndex (\<lambda>d. entryName d = selected) aggregated"

section \<open>The scenario of the specification\<close>

text \<open>An income of 5000 on 2024-03-05, an expense of 2000 on 2024-03-10, no emergency-fund
  entry, read on 2024-03-20. Month indices are those of \<open>getMonth\<close>: March is 2.\<close>

definition mkItem :: "int \<Rightarrow> nat \<Rightarrow> nat \<Rightarrow> real \<Rightarrow> jsstring \<Rightarrow> dataItem" where
  "mkItem y m d a c =
     \<lparr>date = \<lparr>getFullYear = y, getMonth = m, getDate = d\<rparr>, amount = a, category = c\<rparr>"

definition march20 :: jsdate where
  "march20 = \<lparr>getFullYear = 2024, getMonth = 2, getDate = 20\<rparr>"

definition marchBuckets :: "weekBucket list" where
  "marchBuckets =
     [(newBucket 2024 3 1)\<lparr>income := 5000\<rparr>, (newBucket 2024 3 2)\<lparr>expense := 2000\<rparr>,
      newBucket 2024 3 3, newBucket 2024 3 4]"

definition april20 :: jsdate where
  "april20 = \<lparr>getFullYear = 2024, getMonth = 3, getDate = 20\<rparr>"

text \<open>Two more dates of reading, for the guard on the years.\<close>

definition dec2024 :: jsdate where
  "dec2024 = \<lparr>getFullYear = 2024, getMonth = 11, getDate = 20\<rparr>"

definition jan2024 :: jsdate where
  "jan2024 = \<lparr>getFullYear = 2024, getMonth = 0, getDate = 5\<rparr>"


text \<open>Emergency-fund entries of 10 on 2024-03-03 and of 20 on 2024-03-25.\<close>

definition fundItems :: "dataItem list" where
  "fundItems = [mkItem 2024 2 3 10 [], mkItem 2024 2 25 20 []]"

text \<open>The weekly sequences of the scenario and of the two emergency-fund entries alone,
  both read on 2024-03-20.\<close>

definition marchWeeks :: "balancedWeek list" where
  "marchWeeks = weeklyFullData [mkItem 2024 2 5 5000 []] [mkItem 2024 2 10 2000 []] [] march20"

definition fundWeeks :: "balancedWeek list" where
  "fundWeeks = weeklyFullData [] [] fundItems march20"

text \<open>The weekly view of the scenario, and a state of the component in the middle of a
  drag that started at x = 500 with an anchor that no period has.\<close>

definition marchEntries :: "entry list" where
  "marchEntries = map WeekEntry marchWeeks"

definition draggingState :: uiState where
  "draggingState =
     \<lparr>selectedFilter = [], isDataLoaded = True, dragStartX = Some 500, isDragging = True\<rparr>"

section \<open>The balance chain\<close>

lemma rollBalances_length: "length (rollBalances bal ws) = length ws"
  by (induction ws arbitrary: bal) auto

lemma rollBalances_closing:
  "w \<in> set (rollBalances bal ws) \<Longrightarrow> closing w = opening w + income w - expense w"
  by (induction ws arbitrary: bal) auto

lemma rollBalances_first: "ws \<noteq> [] \<Longrightarrow> opening (rollBalances bal ws ! 0) = bal"
  by (cases ws) auto

lemma rollBalances_step:
  "Suc i < length ws \<Longrightarrow>
     opening (rollBalances bal ws ! Suc i) = closing (rollBalances bal ws ! i)"
proof (induction ws arbitrary: bal i)
  case Nil
  then show ?case by simp
next
  case (Cons w ws)
  show ?case
  proof (cases i)
    case 0
    with Cons.prems show ?thesis by (cases ws) auto
  next
    case (Suc j)
    with Cons show ?thesis by simp
  qed
qed

lemma weekKey_march:
  "weekKey 2024 3 1 = [50, 48, 50, 52, 45, 48, 51, 45, 87, 49]"
  "weekKey 2024 3 (Suc 0) = [50, 48, 50, 52, 45, 48, 51, 45, 87, 49]"
  "weekKey 2024 3 2 = [50, 48, 50, 52, 45, 48, 51, 45, 87, 50]"
  "weekKey 2024 3 3 = [50, 48, 50, 52, 45, 48, 51, 45, 87, 51]"
  "weekKey 2024 3 4 = [50, 48, 50, 52, 45, 48, 51, 45, 87, 52]"
  by (simp_all add: weekKey_def numToString_def padStart_def digitsOf.simps)

lemma weeksLoop_march:
  "weeksLoop (newDate 2024 2) (newDate 2024 2) [] = map (newBucket 2024 3) [1, 2, 3, 4]"
  by (simp add: weeksLoop.simps newDate_def earlier_def setMonth_def)

lemma weekBuckets_march:
  "weekBuckets [mkItem 2024 2 5 5000 []] [mkItem 2024 2 10 2000 []] [] march20 = marchBuckets"
  by (simp add: weekBuckets_def rangeStart_def rangeEnd_def mkItem_def march20_def earlier_def
      weeksLoop_march [simplified newDate_def, simplified] newDate_def populate_def
      populateItem_def excluded_def itemKey_def getWeekIndex_def newBucket_def weekKey_march
      addField_def lit_openingBalance_def lit_cashReserve_def marchBuckets_def)

lemma weeklyFullData_march_length:
  "length (weeklyFullData [mkItem 2024 2 5 5000 []] [mkItem 2024 2 10 2000 []] [] march20) = 4"
  by (simp add: weeklyFullData_def weekBuckets_march rollBalances_length marchBuckets_def)

section \<open>Number strings and keys\<close>

lemma digitsOf_small: "n < 10 \<Longrightarrow> digitsOf n = [48 + n]"
  by (simp add: digitsOf.simps)

lemma digitsOf_two: "10 \<le> n \<Longrightarrow> n < 100 \<Longrightarrow> digitsOf n = [48 + n div 10, 48 + n mod 10]"
  by (subst digitsOf.simps) (simp add: digitsOf_small)

lemma digitsOf_not_Nil: "digitsOf n \<noteq> []"
  by (subst digitsOf.simps) simp

lemma digitsOf_range: "c \<in> set (digitsOf n) \<Longrightarrow> 48 \<le> c \<and> c \<le> 57"
proof (induction n arbitrary: c rule: digitsOf.induct)
  case (1 n)
  show ?case
  proof (cases "n < 10")
    case True
    with "1.prems" show ?thesis by (simp add: digitsOf_small)
  next
    case False
    from "1.prems" have "c \<in> set (digitsOf (n div 10)) \<or> c = 48 + n mod 10"
      by (subst (asm) digitsOf.simps) (use False in auto)
    then show ?thesis
    proof
      assume "c \<in> set (digitsOf (n div 10))"
      with "1.IH" [OF False] show ?thesis by blast
    next
      assume c: "c = 48 + n mod 10"
      have "n mod 10 < 10" by simp
      with c show ?thesis by linarith
    qed
  qed
qed

lemma digitsOf_inj: "digitsOf a = digitsOf b \<Longrightarrow> a = b"
proof (induction a arbitrary: b rule: digitsOf.induct)
  case (1 a)
  show ?case
  proof (cases "a < 10")
    case True
    show ?thesis
    proof (cases "b < 10")
      case b: True
      with True "1.prems" show ?thesis by (simp add: digitsOf_small)
    next
      case b: False
      have "digitsOf b = digitsOf (b div 10) @ [48 + b mod 10]"
        by (subst digitsOf.simps) (use b in simp)
      with "1.prems" True have "digitsOf (b div 10) = []"
        by (simp add: digitsOf_small)
      with digitsOf_not_Nil show ?thesis by blast
    qed
  next
    case False
    have ea: "digitsOf a = digitsOf (a div 10) @ [48 + a mod 10]"
      by (subst digitsOf.simps) (use False in simp)
    show ?thesis
    proof (cases "b < 10")
      case b: True
      with "1.prems" ea have "digitsOf (a div 10) = []"
        by (simp add: digitsOf_small)
      with digitsOf_not_Nil show ?thesis by blast
    next
      case b: False
      have eb: "digitsOf b = digitsOf (b div 10) @ [48 + b mod 10]"
        by (subst digitsOf.simps) (use b in simp)
      from "1.prems" ea eb have "digitsOf (a div 10) = digitsOf (b div 10)" "a mod 10 = b mod 10"
        by simp_all
      with "1.IH" [OF False] have "a div 10 = b div 10" "a mod 10 = b mod 10" by blast+
      then show ?thesis by (metis div_mult_mod_eq)
    qed
  qed
qed

lemma numToString_inj: "numToString a = numToString b \<Longrightarrow> a = b"
proof -
  have neq: "45 # digitsOf m \<noteq> digitsOf n" for m n
  proof
    assume e: "45 # digitsOf m = digitsOf n"
    then have "45 \<in> set (digitsOf n)" by (metis list.set_intros(1))
    then show False using digitsOf_range by fastforce
  qed
  assume "numToString a = numToString b"
  then show ?thesis
    using neq [of "nat (- a)" "nat b"] neq [of "nat (- b)" "nat a"]
    by (auto simp: numToString_def split: if_splits dest!: digitsOf_inj)
qed

lemma numToString_nat_range: "c \<in> set (numToString (int n)) \<Longrightarrow> 48 \<le> c \<and> c \<le> 57"
  by (simp add: numToString_def digitsOf_range)

lemma numToString_nat_no_hyphen: "45 \<notin> set (numToString (int n))"
  using numToString_nat_range [of 45 n] by auto

lemma numToString_digit: "w < 10 \<Longrightarrow> numToString (int w) = [48 + w]"
  by (simp add: numToString_def digitsOf_small)

lemma sep_unique:
  assumes "c \<notin> set ds" "c \<notin> set ds'" "xs @ c # ds = xs' @ c # ds'"
  shows "xs = xs' \<and> ds = ds'"
  using assms
  by (auto simp: append_eq_append_conv2 Cons_eq_append_conv append_eq_Cons_conv)

lemma pad2: "m < 100 \<Longrightarrow> padStart 2 48 (numToString (int m)) = [48 + m div 10, 48 + m mod 10]"
  by (cases "m < 10") (simp_all add: padStart_def numToString_def digitsOf_small digitsOf_two)

lemma weekKey_eq:
  "m < 100 \<Longrightarrow> w < 10 \<Longrightarrow>
     weekKey y m w = numToString y @ [45, 48 + m div 10, 48 + m mod 10, 45, 87, 48 + w]"
  by (simp add: weekKey_def pad2 numToString_digit)

text \<open>Two week keys are the same string only for the same year, month and week.\<close>

lemma weekKey_inj:
  assumes "m < 100" "m' < 100" "w < 10" "w' < 10"
  shows "weekKey y m w = weekKey y' m' w' \<longleftrightarrow> y = y' \<and> m = m' \<and> w = w'"
proof
  assume e: "weekKey y m w = weekKey y' m' w'"
  from e assms have "numToString y = numToString y'" "m div 10 = m' div 10" "m mod 10 = m' mod 10"
    "w = w'"
    by (simp_all add: weekKey_eq)
  moreover from this have "m = m'" by (metis div_mult_mod_eq)
  ultimately show "y = y' \<and> m = m' \<and> w = w'" by (simp add: numToString_inj)
qed simp

lemma monthKey_inj:
  "numToString y @ [45] @ numToString (int m) = numToString y' @ [45] @ numToString (int m')
     \<longleftrightarrow> y = y' \<and> m = m'"
proof
  assume "numToString y @ [45] @ numToString (int m) = numToString y' @ [45] @ numToString (int m')"
  then have "numToString y @ 45 # numToString (int m) = numToString y' @ 45 # numToString (int m')"
    by simp
  from sep_unique [OF numToString_nat_no_hyphen numToString_nat_no_hyphen this]
  show "y = y' \<and> m = m'" by (auto dest: numToString_inj)
qed simp

lemma half_cases: "subOf vt w = lit_firstHalf \<or> subOf vt w = lit_secondHalf \<or> subOf vt w = []"
  by (simp add: subOf_def)

lemma groupKey_inj:
  "groupKey vt w = groupKey vt w' \<longleftrightarrow>
     year w = year w' \<and> month w = month w' \<and> subOf vt w = subOf vt w'"
proof (cases "vt = SemiMonthly")
  case False
  then show ?thesis using monthKey_inj [of "year w" "month w" "year w'" "month w'"]
    by (auto simp: groupKey_def subOf_def)
next
  case True
  have len: "length (subOf vt w) = length (subOf vt w')"
    using True by (simp add: subOf_def lit_firstHalf_def lit_secondHalf_def)
  have "groupKey vt w = groupKey vt w' \<longleftrightarrow>
      (numToString (year w) @ [45] @ numToString (int (month w))) @ ([45] @ subOf vt w) =
      (numToString (year w') @ [45] @ numToString (int (month w'))) @ ([45] @ subOf vt w')"
    using True by (simp add: groupKey_def)
  also have "\<dots> \<longleftrightarrow>
      numToString (year w) @ [45] @ numToString (int (month w)) =
      numToString (year w') @ [45] @ numToString (int (month w')) \<and> subOf vt w = subOf vt w'"
    using len by (subst append_eq_append_conv) simp_all
  finally show ?thesis by (simp only: monthKey_inj conj_assoc)
qed

section \<open>The skeleton of the weekly sequence\<close>

lemma newDate_fields [simp]:
  "getMonth (newDate y m) < 12" "getDate (newDate y m) = 1"
  by (simp_all add: newDate_def)

lemma setMonth_next:
  assumes "getMonth d < 12"
  shows "monthOrd (setMonth d (getMonth d + 1)) = monthOrd d + 1"
    "getMonth (setMonth d (getMonth d + 1)) < 12"
    "getDate (setMonth d (getMonth d + 1)) = getDate d"
proof -
  show "monthOrd (setMonth d (getMonth d + 1)) = monthOrd d + 1"
  proof (cases "getMonth d = 11")
    case True
    then show ?thesis by (simp add: monthOrd_def setMonth_def)
  next
    case False
    with assms have "getMonth d + 1 < 12" by simp
    then show ?thesis by (simp add: monthOrd_def setMonth_def)
  qed
qed (simp_all add: setMonth_def)

lemma earlier_monthOrd:
  assumes "getMonth a < 12" "getMonth b < 12" "getDate a = getDate b"
  shows "earlier a b \<longleftrightarrow> monthOrd a < monthOrd b"
  using assms unfolding earlier_def monthOrd_def by auto

lemma monthOrd_div_mod:
  assumes "getMonth d < 12"
  shows "monthOrd d div 12 = getFullYear d" "nat (monthOrd d mod 12) = getMonth d"
  using assms unfolding monthOrd_def by auto

lemma weeksLoop_char:
  "getMonth cur < 12 \<Longrightarrow> getMonth fin < 12 \<Longrightarrow> getDate cur = getDate fin \<Longrightarrow>
     weeksLoop cur fin acc = acc @ concat (map monthBuckets [monthOrd cur..monthOrd fin])"
proof (induction cur fin acc rule: weeksLoop.induct)
  case (1 cur fin weeks)
  show ?case
  proof (cases "earlier fin cur")
    case True
    with 1 have "monthOrd fin < monthOrd cur" by (simp add: earlier_monthOrd)
    with True show ?thesis by (subst weeksLoop.simps) simp
  next
    case False
    with 1 have le: "monthOrd cur \<le> monthOrd fin" by (simp add: earlier_monthOrd)
    note nx = setMonth_next [OF "1.prems"(1)]
    have "weeksLoop cur fin weeks =
        weeksLoop (setMonth cur (getMonth cur + 1)) fin
          (weeks @ map (newBucket (getFullYear cur) (getMonth cur + 1)) [1, 2, 3, 4])"
      by (subst weeksLoop.simps) (use False in simp)
    also have "\<dots> = (weeks @ map (newBucket (getFullYear cur) (getMonth cur + 1)) [1, 2, 3, 4])
        @ concat (map monthBuckets [monthOrd cur + 1..monthOrd fin])"
      using "1.IH" [OF False nx(2) "1.prems"(2)] nx(3) "1.prems"(3) nx(1) by simp
    also have "map (newBucket (getFullYear cur) (getMonth cur + 1)) [1, 2, 3, 4]
        = monthBuckets (monthOrd cur)"
      by (simp add: monthBuckets_def monthOrd_div_mod [OF "1.prems"(1)])
    finally show ?thesis using le by (simp add: upto_rec1 [of "monthOrd cur"])
  qed
qed
lemma ident_monthBuckets: "map ident (monthBuckets k) = monthIdents k"
  by (simp add: monthBuckets_def monthIdents_def ident_def newBucket_def)

lemma ord_div_mod:
  assumes "1 \<le> m" "m \<le> 12"
  shows "(12 * y + int m - 1) div 12 = y" "nat ((12 * y + int m - 1) mod 12) + 1 = m"
proof -
  define r where "r = int m - 1"
  with assms have r: "0 \<le> r" "r < 12" by auto
  then have dm: "(12 * y + r) div 12 = y" "(12 * y + r) mod 12 = r"
    by simp_all
  have e: "12 * y + int m - 1 = 12 * y + r" by (simp add: r_def)
  show "(12 * y + int m - 1) div 12 = y" unfolding e by (rule dm)
  have "nat r + 1 = m" using assms by (simp add: r_def)
  then show "nat ((12 * y + int m - 1) mod 12) + 1 = m" unfolding e dm .
qed

lemma ord_of_div_mod:
  assumes "k div 12 = y" "nat (k mod 12) + 1 = m"
  shows "k = 12 * y + int m - 1" "1 \<le> m" "m \<le> 12"
proof -
  have "0 \<le> k mod 12" "k mod 12 < 12" by simp_all
  with assms(2) have m: "int m = k mod 12 + 1" by linarith
  have "k = 12 * (k div 12) + k mod 12" by simp
  with m assms(1) show "k = 12 * y + int m - 1" by linarith
  from m \<open>0 \<le> k mod 12\<close> \<open>k mod 12 < 12\<close> show "1 \<le> m" "m \<le> 12" by linarith+
qed

lemma monthIdents_eq_iff: "(y, m, w) \<in> set (monthIdents k) \<longleftrightarrow>
    k = 12 * y + int m - 1 \<and> 1 \<le> m \<and> m \<le> 12 \<and> w \<in> {1, 2, 3, 4}"
proof -
  have "k div 12 = y \<and> nat (k mod 12) + 1 = m \<longleftrightarrow> k = 12 * y + int m - 1 \<and> 1 \<le> m \<and> m \<le> 12"
    using ord_div_mod [of m y] ord_of_div_mod [of k y m] by blast
  then show ?thesis by (auto simp: monthIdents_def)
qed

lemma concat_single:
  "distinct ks \<Longrightarrow> k0 \<in> set ks \<Longrightarrow> concat (map (\<lambda>k. if k = k0 then c else []) ks) = c"
proof (induction ks)
  case Nil
  then show ?case by simp
next
  case (Cons k ks)
  show ?case
  proof (cases "k = k0")
    case True
    with Cons.prems have "k0 \<notin> set ks" by simp
    then have "concat (map (\<lambda>k. if k = k0 then c else []) ks) = []"
      by (induction ks) auto
    with True show ?thesis by simp
  next
    case False
    with Cons show ?thesis by simp
  qed
qed

lemma filter_month_idents:
  assumes "a \<le> 12 * y + int m - 1" "12 * y + int m - 1 \<le> b" "1 \<le> m" "m \<le> 12"
  shows "filter (\<lambda>(y', m', w). y' = y \<and> m' = m) (concat (map monthIdents [a..b]))
     = map (\<lambda>w. (y, m, w)) [1, 2, 3, 4]"
proof -
  let ?k0 = "12 * y + int m - 1"
  let ?P = "\<lambda>(y', m', w). y' = y \<and> m' = (m::nat)"
  have k0: "?k0 div 12 = y" "nat (?k0 mod 12) + 1 = m"
    using ord_div_mod [OF assms(3,4)] by simp_all
  have one: "filter ?P (monthIdents k) = (if k = ?k0 then map (\<lambda>w. (y, m, w)) [1, 2, 3, 4] else [])" for k
  proof (cases "k = ?k0")
    case True
    then show ?thesis using k0 by (simp add: monthIdents_def)
  next
    case False
    have "\<not> ?P i" if "i \<in> set (monthIdents k)" for i
    proof -
      obtain y' m' w' where i: "i = (y', m', w')" by (cases i)
      with that monthIdents_eq_iff [of y' m' w' k] False show ?thesis by auto
    qed
    then have "filter ?P (monthIdents k) = []" by (auto simp: filter_empty_conv)
    with False show ?thesis by simp
  qed
  have "filter ?P (concat (map monthIdents [a..b]))
      = concat (map (\<lambda>k. filter ?P (monthIdents k)) [a..b])"
    by (simp add: filter_concat comp_def)
  also have "\<dots> = concat (map (\<lambda>k. if k = ?k0 then map (\<lambda>w. (y, m, w)) [1, 2, 3, 4] else []) [a..b])"
    by (simp only: one)
  also have "\<dots> = map (\<lambda>w. (y, m, w)) [1, 2, 3, 4]"
    using assms(1,2) by (intro concat_single) simp_all
  finally show ?thesis .
qed

lemma distinct_idents: "distinct (concat (map monthIdents [a..b]))"
proof (rule distinct_concat)
  have "inj monthIdents"
  proof (rule injI)
    fix j k assume "monthIdents j = monthIdents k"
    then have "(j div 12, nat (j mod 12) + 1, 1) \<in> set (monthIdents k)"
      by (simp add: monthIdents_def)
    with monthIdents_eq_iff [of "j div 12" "nat (j mod 12) + 1" 1 k]
    have "k = 12 * (j div 12) + int (nat (j mod 12) + 1) - 1" by blast
    then show "j = k" by simp
  qed
  then show "distinct (map monthIdents [a..b])" by (simp add: distinct_map inj_on_def)
next
  fix ys assume "ys \<in> set (map monthIdents [a..b])"
  then show "distinct ys" by (auto simp: monthIdents_def)
next
  fix ys zs assume "ys \<in> set (map monthIdents [a..b])" "zs \<in> set (map monthIdents [a..b])" "ys \<noteq> zs"
  then obtain j k where jk: "ys = monthIdents j" "zs = monthIdents k" "j \<noteq> k" by auto
  show "set ys \<inter> set zs = {}"
  proof (rule ccontr)
    assume "set ys \<inter> set zs \<noteq> {}"
    then obtain i where "i \<in> set ys" "i \<in> set zs" by auto
    moreover obtain y m w where "i = (y, m, w)" by (cases i)
    ultimately show False using jk monthIdents_eq_iff [of y m w j] monthIdents_eq_iff [of y m w k]
      by auto
  qed
qed

subsection \<open>Population keeps the buckets and adds the matching amounts\<close>

lemma addField_fields [simp]:
  "key (addField f a w) = key w" "ident (addField f a w) = ident w"
  "year (addField f a w) = year w" "month (addField f a w) = month w"
  "week (addField f a w) = week w"
  by (cases f; simp add: addField_def ident_def)+

lemma addField_zero [simp]: "addField f 0 w = w"
  by (cases f) (simp_all add: addField_def)

lemma addField_add: "addField f b (addField f a w) = addField f (a + b) w"
  by (cases f) (simp_all add: addField_def add.assoc)

lemma addToFirst_distinct:
  "distinct (map key ws) \<Longrightarrow>
     addToFirst k f a ws = map (\<lambda>w. if key w = k then addField f a w else w) ws"
proof (induction ws)
  case Nil
  then show ?case by simp
next
  case (Cons w ws)
  show ?case
  proof (cases "key w = k")
    case True
    with Cons.prems have "\<forall>v \<in> set ws. key v \<noteq> k" by (auto simp: image_iff)
    then have "map (\<lambda>w. if key w = k then addField f a w else w) ws = ws"
      by (intro map_idI) simp
    with True show ?thesis by simp
  next
    case False
    with Cons show ?thesis by simp
  qed
qed

lemma populate_snoc: "populate (items @ [it]) f ws = populateItem f (populate items f ws) it"
  by (simp add: populate_def)

lemma populate_distinct:
  "distinct (map key ws) \<Longrightarrow>
     populate items f ws
       = map (\<lambda>w. addField f (sum_list (map amount (matching f items (key w)))) w) ws"
proof (induction items rule: rev_induct)
  case Nil
  then show ?case by (simp add: populate_def matching_def)
next
  case (snoc it items)
  let ?g = "\<lambda>w. addField f (sum_list (map amount (matching f items (key w)))) w"
  have keys: "map key (map ?g ws) = map key ws" by simp
  show ?case
  proof (cases "excluded f it")
    case True
    with snoc show ?thesis by (simp add: populate_snoc populateItem_def matching_def)
  next
    case False
    have "populate (items @ [it]) f ws = addToFirst (itemKey it) f (amount it) (map ?g ws)"
      using False snoc by (simp add: populate_snoc populateItem_def)
    also have "\<dots> = map (\<lambda>w. if key w = itemKey it then addField f (amount it) w else w) (map ?g ws)"
      using snoc.prems by (intro addToFirst_distinct) (simp only: keys)
    also have "\<dots> = map (\<lambda>w. addField f (sum_list (map amount (matching f (items @ [it]) (key w)))) w) ws"
      using False by (auto simp: matching_def addField_add)
    finally show ?thesis .
  qed
qed

lemma populate_keys: "map key (populate items f ws) = map key ws"
proof -
  have one: "map key (addToFirst k f a ws) = map key ws" for k a ws
    by (induction ws) auto
  show ?thesis
    by (induction items rule: rev_induct) (simp_all add: populate_def populateItem_def one)
qed

lemma populate_idents: "map ident (populate items f ws) = map ident ws"
proof -
  have one: "map ident (addToFirst k f a ws) = map ident ws" for k a ws
    by (induction ws) auto
  show ?thesis
    by (induction items rule: rev_induct) (simp_all add: populate_def populateItem_def one)
qed

lemma rollBalances_idents: "map ident (rollBalances bal ws) = map ident ws"
  by (induction ws arbitrary: bal) (auto simp: ident_def)


subsection \<open>The buckets of an input\<close>

lemma key_monthBuckets:
  "map key (monthBuckets k) = map (\<lambda>(y, m, w). weekKey y m w) (monthIdents k)"
  by (simp add: monthBuckets_def monthIdents_def newBucket_def)

lemma skeleton_idents:
  "map ident (skeleton allDates now)
     = concat (map monthIdents [monthOrd (rangeStart allDates)..monthOrd (rangeEnd allDates now)])"
  by (simp add: skeleton_def map_concat comp_def ident_monthBuckets)

lemma skeleton_keys:
  "map key (skeleton allDates now) = map (\<lambda>(y, m, w). weekKey y m w) (map ident (skeleton allDates now))"
  by (simp add: skeleton_def map_concat comp_def key_monthBuckets ident_monthBuckets [symmetric])

lemma skeleton_distinct: "distinct (map key (skeleton allDates now))"
proof -
  let ?is = "concat (map monthIdents [monthOrd (rangeStart allDates)..monthOrd (rangeEnd allDates now)])"
  have "inj_on (\<lambda>(y, m, w). weekKey y m w) (set ?is)"
  proof (rule inj_onI)
    fix i j assume i: "i \<in> set ?is" and j: "j \<in> set ?is"
      and e: "(case i of (y, m, w) \<Rightarrow> weekKey y m w) = (case j of (y, m, w) \<Rightarrow> weekKey y m w)"
    obtain y m w where ii: "i = (y, m, w)" by (cases i)
    obtain y' m' w' where jj: "j = (y', m', w')" by (cases j)
    from i ii have "m \<le> 12" "w \<in> {1, 2, 3, 4}" by (auto simp: monthIdents_eq_iff)
    moreover from j jj have "m' \<le> 12" "w' \<in> {1, 2, 3, 4}" by (auto simp: monthIdents_eq_iff)
    ultimately have "m < 100" "m' < 100" "w < 10" "w' < 10" by auto
    from weekKey_inj [OF this] e ii jj show "i = j" by simp
  qed
  then show ?thesis
    unfolding skeleton_keys skeleton_idents by (simp add: distinct_map distinct_idents)
qed

lemma skeleton_zero:
  "b \<in> set (skeleton allDates now) \<Longrightarrow> income b = 0 \<and> expense b = 0 \<and> emergencyFund b = 0"
  by (auto simp: skeleton_def monthBuckets_def newBucket_def)

lemma skeleton_key:
  "b \<in> set (skeleton allDates now) \<Longrightarrow>
     key b = weekKey (year b) (month b) (week b) \<and> 1 \<le> month b \<and> month b \<le> 12 \<and> week b \<in> {1, 2, 3, 4}"
  by (auto simp: skeleton_def monthBuckets_def newBucket_def)

lemma weekBuckets_cases:
  "weekBuckets incomes expenses emergencyFunds now =
     (if allDatesOf incomes expenses emergencyFunds = []
         \<or> guardFires (allDatesOf incomes expenses emergencyFunds) now
      then []
      else populate emergencyFunds EmergencyFund
             (populate expenses Expense
               (populate incomes Income (skeleton (allDatesOf incomes expenses emergencyFunds) now))))"
proof -
  have "weeksLoop (rangeStart ds) (rangeEnd ds now) [] = skeleton ds now" for ds
    unfolding skeleton_def
    by (subst weeksLoop_char) (simp_all add: rangeStart_def rangeEnd_def Let_def)
  then show ?thesis
    by (simp add: weekBuckets_def allDatesOf_def guardFires_def Let_def)
qed

text \<open>The amounts of a bucket of the input: the sums over the items that count for it.\<close>

lemma weekBuckets_closed:
  assumes "allDatesOf incomes expenses emergencyFunds \<noteq> []"
    and "\<not> guardFires (allDatesOf incomes expenses emergencyFunds) now"
  shows "weekBuckets incomes expenses emergencyFunds now =
     map (\<lambda>b. b\<lparr>income := sum_list (map amount (matching Income incomes (key b))),
               expense := sum_list (map amount (matching Expense expenses (key b))),
               emergencyFund := sum_list (map amount (matching EmergencyFund emergencyFunds (key b)))\<rparr>)
       (skeleton (allDatesOf incomes expenses emergencyFunds) now)"
proof -
  let ?sk = "skeleton (allDatesOf incomes expenses emergencyFunds) now"
  have d0: "distinct (map key ?sk)" by (rule skeleton_distinct)
  then have d1: "distinct (map key (populate incomes Income ?sk))" by (simp add: populate_keys)
  then have d2: "distinct (map key (populate expenses Expense (populate incomes Income ?sk)))"
    by (simp add: populate_keys)
  have "weekBuckets incomes expenses emergencyFunds now =
      populate emergencyFunds EmergencyFund (populate expenses Expense (populate incomes Income ?sk))"
    using assms by (simp add: weekBuckets_cases)
  also have "\<dots> = map (\<lambda>b. addField EmergencyFund
        (sum_list (map amount (matching EmergencyFund emergencyFunds (key b)))) b)
      (populate expenses Expense (populate incomes Income ?sk))"
    by (rule populate_distinct [OF d2])
  also have "populate expenses Expense (populate incomes Income ?sk) =
      map (\<lambda>b. addField Expense (sum_list (map amount (matching Expense expenses (key b)))) b)
        (populate incomes Income ?sk)"
    by (rule populate_distinct [OF d1])
  also have "populate incomes Income ?sk =
      map (\<lambda>b. addField Income (sum_list (map amount (matching Income incomes (key b)))) b) ?sk"
    by (rule populate_distinct [OF d0])
  finally have "weekBuckets incomes expenses emergencyFunds now = map (\<lambda>b. addField EmergencyFund
        (sum_list (map amount (matching EmergencyFund emergencyFunds (key b))))
        (addField Expense (sum_list (map amount (matching Expense expenses (key b))))
          (addField Income (sum_list (map amount (matching Income incomes (key b)))) b))) ?sk"
    by (simp add: comp_def)
  also have "\<dots> = map (\<lambda>b. b\<lparr>income := sum_list (map amount (matching Income incomes (key b))),
               expense := sum_list (map amount (matching Expense expenses (key b))),
               emergencyFund := sum_list (map amount (matching EmergencyFund emergencyFunds (key b)))\<rparr>) ?sk"
    by (rule map_cong [OF refl]) (simp add: addField_def skeleton_zero)
  finally show ?thesis .
qed

lemma weekBuckets_idents:
  "map ident (weekBuckets incomes expenses emergencyFunds now) =
     (if allDatesOf incomes expenses emergencyFunds = []
         \<or> guardFires (allDatesOf incomes expenses emergencyFunds) now
      then []
      else concat (map monthIdents
        [monthOrd (rangeStart (allDatesOf incomes expenses emergencyFunds))..
         monthOrd (rangeEnd (allDatesOf incomes expenses emergencyFunds) now)]))"
  by (simp add: weekBuckets_cases populate_idents skeleton_idents)

lemma itemKey_onBucket:
  assumes "getMonth (date it) < 12" "month b \<le> 12" "week b \<in> {1, 2, 3, 4}"
  shows "itemKey it = weekKey (year b) (month b) (week b) \<longleftrightarrow> onBucket it b"
proof -
  have "getWeekIndex (getDate (date it)) < 10" by (simp add: getWeekIndex_def)
  moreover from assms have "getMonth (date it) + 1 < 100" "month b < 100" "week b < 10" by auto
  ultimately show ?thesis unfolding itemKey_def onBucket_def by (simp add: weekKey_inj)
qed

subsection \<open>Substrings, skipped items and the length of the sequence\<close>

lemma includesStr_iff: "includesStr s sub \<longleftrightarrow> (\<exists>ps ss. s = ps @ sub @ ss)"
proof (induction s)
  case Nil
  then show ?case by auto
next
  case (Cons c cs)
  have "(\<exists>ps ss. c # cs = ps @ sub @ ss) \<longleftrightarrow> prefix sub (c # cs) \<or> (\<exists>ps ss. cs = ps @ sub @ ss)"
  proof
    assume "\<exists>ps ss. c # cs = ps @ sub @ ss"
    then obtain ps ss where e: "c # cs = ps @ sub @ ss" by blast
    show "prefix sub (c # cs) \<or> (\<exists>ps ss. cs = ps @ sub @ ss)"
    proof (cases ps)
      case Nil
      with e show ?thesis by (auto simp: prefix_def)
    next
      case (Cons p ps')
      with e have "cs = ps' @ sub @ ss" by simp
      then show ?thesis by blast
    qed
  next
    assume "prefix sub (c # cs) \<or> (\<exists>ps ss. cs = ps @ sub @ ss)"
    then show "\<exists>ps ss. c # cs = ps @ sub @ ss"
    proof
      assume "prefix sub (c # cs)"
      then obtain ss where "c # cs = sub @ ss" by (auto simp: prefix_def)
      then have "c # cs = [] @ sub @ ss" by simp
      then show ?thesis by blast
    next
      assume "\<exists>ps ss. cs = ps @ sub @ ss"
      then obtain ps ss where "cs = ps @ sub @ ss" by blast
      then have "c # cs = (c # ps) @ sub @ ss" by simp
      then show ?thesis by blast
    qed
  qed
  with Cons show ?case by simp
qed


lemma weekBuckets_length:
  assumes "allDatesOf incomes expenses emergencyFunds \<noteq> []"
    and "\<not> guardFires (allDatesOf incomes expenses emergencyFunds) now"
  shows "length (weekBuckets incomes expenses emergencyFunds now) =
     4 * nat (monthOrd (rangeEnd (allDatesOf incomes expenses emergencyFunds) now)
              - monthOrd (rangeStart (allDatesOf incomes expenses emergencyFunds)) + 1)"
proof -
  have len: "length (concat (map monthIdents [a..b])) = 4 * nat (b - a + 1)" for a b
  proof (induction a b rule: upto.induct)
    case (1 i j)
    show ?case
    proof (cases "i \<le> j")
      case True
      have "[i..j] = i # [i + 1..j]" using True by (simp add: upto_rec1)
      with 1 True show ?thesis by (simp add: monthIdents_def nat_add_distrib)
    next
      case False
      then show ?thesis by simp
    qed
  qed
  have "length (weekBuckets incomes expenses emergencyFunds now)
      = length (map ident (weekBuckets incomes expenses emergencyFunds now))" by simp
  also have "\<dots> = 4 * nat (monthOrd (rangeEnd (allDatesOf incomes expenses emergencyFunds) now)
              - monthOrd (rangeStart (allDatesOf incomes expenses emergencyFunds)) + 1)"
    using assms unfolding weekBuckets_idents by (simp add: len)
  finally show ?thesis .
qed

lemma guard_span:
  assumes "getMonth s < 12" "getMonth e < 12"
  shows "monthOrd e - monthOrd s \<le> 120 \<Longrightarrow> \<not> getFullYear e - getFullYear s > 10"
    and "monthOrd e - monthOrd s \<ge> 132 \<Longrightarrow> getFullYear e - getFullYear s > 10"
  using assms unfolding monthOrd_def by linarith+

subsection \<open>Evaluating the scenarios\<close>

lemmas scenario_defs = allDatesOf_def rangeStart_def rangeEnd_def guardFires_def spanMonths_def
  monthOrd_def newDate_def earlier_def mkItem_def march20_def april20_def dec2024_def jan2024_def

subsection \<open>The weeks of a month and the amounts of a bucket\<close>

lemma weekBuckets_month:
  assumes "allDatesOf incomes expenses emergencyFunds \<noteq> []"
    and "\<not> guardFires (allDatesOf incomes expenses emergencyFunds) now"
    and "monthOrd (rangeStart (allDatesOf incomes expenses emergencyFunds)) \<le> 12 * y + int m - 1"
    and "12 * y + int m - 1 \<le> monthOrd (rangeEnd (allDatesOf incomes expenses emergencyFunds) now)"
    and "1 \<le> m" "m \<le> 12"
  shows "map ident (filter (\<lambda>b. year b = y \<and> month b = m)
           (weekBuckets incomes expenses emergencyFunds now)) = map (\<lambda>w. (y, m, w)) [1, 2, 3, 4]"
proof -
  have e: "map ident (filter (\<lambda>b. year b = y \<and> month b = m) ws)
      = filter (\<lambda>(y', m', w). y' = y \<and> m' = m) (map ident ws)" for ws :: "weekBucket list"
    by (induction ws) (auto simp: ident_def)
  from assms(1,2) have w: "map ident (weekBuckets incomes expenses emergencyFunds now)
      = concat (map monthIdents
        [monthOrd (rangeStart (allDatesOf incomes expenses emergencyFunds))..
         monthOrd (rangeEnd (allDatesOf incomes expenses emergencyFunds) now)])"
    by (simp add: weekBuckets_idents)
  show ?thesis unfolding e w by (rule filter_month_idents [OF assms(3-6)])
qed

lemma rollBalances_filter_idents:
  "map ident (filter (\<lambda>b. P (ident b)) (rollBalances bal ws))
     = map ident (filter (\<lambda>b. P (ident b)) ws)"
  by (induction ws arbitrary: bal) (auto simp: ident_def)

lemma weekBuckets_member:
  assumes "b \<in> set (weekBuckets incomes expenses emergencyFunds now)"
  shows "\<exists>s \<in> set (skeleton (allDatesOf incomes expenses emergencyFunds) now).
      b = s\<lparr>income := sum_list (map amount (matching Income incomes (key s))),
            expense := sum_list (map amount (matching Expense expenses (key s))),
            emergencyFund := sum_list (map amount (matching EmergencyFund emergencyFunds (key s)))\<rparr>"
proof -
  from assms have ne: "allDatesOf incomes expenses emergencyFunds \<noteq> []"
    "\<not> guardFires (allDatesOf incomes expenses emergencyFunds) now"
    by (auto simp: weekBuckets_cases split: if_splits)
  from assms show ?thesis unfolding weekBuckets_closed [OF ne] by auto
qed

text \<open>The amounts of a bucket of the input, by the dates of the items.\<close>

lemma matching_onBucket:
  assumes "validItems items" "month b \<le> 12" "week b \<in> {1, 2, 3, 4}"
  shows "matching f items (weekKey (year b) (month b) (week b))
     = filter (\<lambda>it. \<not> excluded f it \<and> onBucket it b) items"
  unfolding matching_def
proof (rule filter_cong [OF refl])
  fix it assume "it \<in> set items"
  with assms(1) have "getMonth (date it) < 12" by (auto simp: validItems_def list_all_iff)
  from itemKey_onBucket [OF this assms(2,3)]
  show "(\<not> excluded f it \<and> itemKey it = weekKey (year b) (month b) (week b))
      = (\<not> excluded f it \<and> onBucket it b)" by simp
qed

lemma weekBuckets_amounts:
  assumes "b \<in> set (weekBuckets incomes expenses emergencyFunds now)"
  shows "validItems incomes \<Longrightarrow>
      income b = sum_list (map amount (filter (\<lambda>it. \<not> excluded Income it \<and> onBucket it b) incomes))"
    and "validItems expenses \<Longrightarrow>
      expense b = sum_list (map amount (filter (\<lambda>it. onBucket it b) expenses))"
    and "validItems emergencyFunds \<Longrightarrow>
      emergencyFund b = sum_list (map amount (filter (\<lambda>it. onBucket it b) emergencyFunds))"
proof -
  from weekBuckets_member [OF assms] obtain s
    where s: "s \<in> set (skeleton (allDatesOf incomes expenses emergencyFunds) now)"
      and b: "b = s\<lparr>income := sum_list (map amount (matching Income incomes (key s))),
            expense := sum_list (map amount (matching Expense expenses (key s))),
            emergencyFund := sum_list (map amount (matching EmergencyFund emergencyFunds (key s)))\<rparr>"
    by blast
  from skeleton_key [OF s] have k: "key s = weekKey (year s) (month s) (week s)"
    "month s \<le> 12" "week s \<in> {1, 2, 3, 4}" by simp_all
  have ob: "onBucket it s = onBucket it b" for it by (simp add: onBucket_def b)
  have m: "matching f items (key s) = filter (\<lambda>it. \<not> excluded f it \<and> onBucket it b) items"
    if "validItems items" for f items
    unfolding k(1) matching_onBucket [OF that k(2,3)] ob ..
  show "income b = sum_list (map amount (filter (\<lambda>it. \<not> excluded Income it \<and> onBucket it b) incomes))"
    if "validItems incomes"
    unfolding m [OF that, symmetric] by (simp add: b)
  have nx: "\<not> excluded Expense it" "\<not> excluded EmergencyFund it" for it
    by (simp_all add: excluded_def)
  show "expense b = sum_list (map amount (filter (\<lambda>it. onBucket it b) expenses))"
    if "validItems expenses"
    using m [OF that, of Expense] by (simp add: b nx)
  show "emergencyFund b = sum_list (map amount (filter (\<lambda>it. onBucket it b) emergencyFunds))"
    if "validItems emergencyFunds"
    using m [OF that, of EmergencyFund] by (simp add: b nx)
qed



section \<open>The grouping of the weeks\<close>

lemma updateGroup_distinct:
  "distinct (map fst m) \<Longrightarrow>
     updateGroup k f m = map (\<lambda>(k', g). if k' = k then (k', f g) else (k', g)) m"
proof (induction m)
  case Nil
  then show ?case by simp
next
  case (Cons e m)
  obtain k' g where e: "e = (k', g)" by (cases e)
  show ?case
  proof (cases "k' = k")
    case True
    with Cons.prems e have "\<forall>x \<in> set m. fst x \<noteq> k" by (auto simp: image_iff)
    then have "map (\<lambda>(k', g). if k' = k then (k', f g) else (k', g)) m = m"
      by (intro map_idI) auto
    with True e show ?thesis by simp
  next
    case False
    with Cons e show ?thesis by simp
  qed
qed

lemma addWeek_eq:
  assumes "distinct (map fst m)"
  shows "addWeek vt m w =
     (if groupKey vt w \<in> fst ` set m
      then map (\<lambda>(k, g). if k = groupKey vt w then (k, addTo w g) else (k, g)) m
      else m @ [(groupKey vt w, addTo w (newGroup vt w))])"
proof (cases "groupKey vt w \<in> fst ` set m")
  case True
  then have "map_of m (groupKey vt w) \<noteq> None" by (simp add: map_of_eq_None_iff)
  with True assms show ?thesis
    by (simp add: addWeek_def Let_def updateGroup_distinct)
next
  case False
  then have n: "map_of m (groupKey vt w) = None" by (simp add: map_of_eq_None_iff)
  from False have "\<forall>x \<in> set m. fst x \<noteq> groupKey vt w" by (auto simp: image_iff)
  then have "map (\<lambda>(k, g). if k = groupKey vt w then (k, addTo w g) else (k, g)) m = m"
    by (intro map_idI) auto
  moreover have "distinct (map fst (m @ [(groupKey vt w, newGroup vt w)]))"
    using assms False by simp
  ultimately show ?thesis using False n
    by (simp add: addWeek_def Let_def updateGroup_distinct)
qed

lemma groupOf_other:
  assumes "groupOf vt ws k g" "groupKey vt w \<noteq> k"
  shows "groupOf vt (ws @ [w]) k g"
proof -
  have f: "filter (\<lambda>w. groupKey vt w = k) (ws @ [w]) = filter (\<lambda>w. groupKey vt w = k) ws"
    using assms(2) by simp
  show ?thesis using assms(1) unfolding groupOf_def f .
qed

lemma groupOf_same:
  assumes "groupOf vt ws k g" "groupKey vt w = k"
  shows "groupOf vt (ws @ [w]) k (addTo w g)"
proof -
  from assms(1) have ne: "weeks g \<noteq> []" and wk: "weeks g = filter (\<lambda>w. groupKey vt w = k) ws"
    unfolding groupOf_def by blast+
  have w': "weeks (addTo w g) = weeks g @ [w]" by (simp add: addTo_def)
  have h: "hd (weeks g @ [w]) = hd (weeks g)" using ne by simp
  have f: "filter (\<lambda>w. groupKey vt w = k) (ws @ [w]) = weeks g @ [w]"
    using assms(2) wk by simp
  have o: "p_income (addTo w g) = p_income g + income w" "p_expense (addTo w g) = p_expense g + expense w"
    "p_emergencyFund (addTo w g) = p_emergencyFund g" "p_opening (addTo w g) = p_opening g"
    "p_year (addTo w g) = p_year g" "p_month (addTo w g) = p_month g"
    "subType (addTo w g) = subType g" "p_name (addTo w g) = p_name g"
    by (simp_all add: addTo_def)
  from assms(1) have "p_income g = sum_list (map income (weeks g))"
    "p_expense g = sum_list (map expense (weeks g))" "p_emergencyFund g = 0"
    "p_opening g = opening (hd (weeks g))" "p_year g = year (hd (weeks g))"
    "p_month g = month (hd (weeks g))" "subType g = subOf vt (hd (weeks g))"
    "p_name g = groupName vt (hd (weeks g))" "groupKey vt (hd (weeks g)) = k"
    unfolding groupOf_def by blast+
  then show ?thesis
    unfolding groupOf_def w' h f o by simp
qed

lemma groupOf_new:
  assumes "\<forall>v \<in> set ws. groupKey vt v \<noteq> groupKey vt w"
  shows "groupOf vt (ws @ [w]) (groupKey vt w) (addTo w (newGroup vt w))"
proof -
  from assms have "filter (\<lambda>v. groupKey vt v = groupKey vt w) ws = []"
    by (auto simp: filter_empty_conv)
  then show ?thesis by (simp add: groupOf_def addTo_def newGroup_def)
qed

lemma groupWeeks_snoc: "groupWeeks vt (ws @ [w]) = addWeek vt (groupWeeks vt ws) w"
  by (simp add: groupWeeks_def)

lemma groupWeeks_invariant:
  "distinct (map fst (groupWeeks vt ws)) \<and>
   set (map fst (groupWeeks vt ws)) = groupKey vt ` set ws \<and>
   (\<forall>e \<in> set (groupWeeks vt ws). groupOf vt ws (fst e) (snd e))"
proof (induction ws rule: rev_induct)
  case Nil
  show ?case by (simp add: groupWeeks_def)
next
  case (snoc w ws)
  let ?m = "groupWeeks vt ws"
  from snoc have d: "distinct (map fst ?m)" and keys: "set (map fst ?m) = groupKey vt ` set ws"
    and inv: "\<And>e. e \<in> set ?m \<Longrightarrow> groupOf vt ws (fst e) (snd e)" by auto
  show ?case
  proof (cases "groupKey vt w \<in> fst ` set ?m")
    case True
    let ?h = "\<lambda>(k, g). if k = groupKey vt w then (k, addTo w g) else (k, g)"
    have e: "groupWeeks vt (ws @ [w]) = map ?h ?m"
      using True by (simp add: groupWeeks_snoc addWeek_eq [OF d])
    have f: "map fst (map ?h ?m) = map fst ?m"
      by (rule nth_equalityI) (auto split: prod.splits)
    have g: "groupOf vt (ws @ [w]) (fst x) (snd x)" if "x \<in> set (map ?h ?m)" for x
    proof -
      from that obtain e0 where e0: "e0 \<in> set ?m" "x = ?h e0" by auto
      obtain k g0 where kg: "e0 = (k, g0)" by (cases e0)
      from inv [OF e0(1)] kg have i: "groupOf vt ws k g0" by simp
      show ?thesis
      proof (cases "k = groupKey vt w")
        case True
        with e0(2) kg have "x = (k, addTo w g0)" by simp
        with groupOf_same [OF i True [symmetric]] show ?thesis by simp
      next
        case False
        with e0(2) kg have "x = (k, g0)" by simp
        with groupOf_other [OF i] False show ?thesis by auto
      qed
    qed
    have k: "set (map fst ?m) = groupKey vt ` set (ws @ [w])"
      using True keys by auto
    show ?thesis unfolding e
    proof (intro conjI ballI)
      show "distinct (map fst (map ?h ?m))" unfolding f by (rule d)
      show "set (map fst (map ?h ?m)) = groupKey vt ` set (ws @ [w])" unfolding f by (rule k)
    qed (rule g)
  next
    case False
    have e: "groupWeeks vt (ws @ [w]) = ?m @ [(groupKey vt w, addTo w (newGroup vt w))]"
      using False by (simp add: groupWeeks_snoc addWeek_eq [OF d])
    have nk: "\<forall>v \<in> set ws. groupKey vt v \<noteq> groupKey vt w"
    proof (intro ballI notI)
      fix v assume "v \<in> set ws" "groupKey vt v = groupKey vt w"
      then have "groupKey vt w \<in> groupKey vt ` set ws" by (metis imageI)
      with False keys show False by simp
    qed
    have g: "groupOf vt (ws @ [w]) (fst x) (snd x)" if "x \<in> set ?m" for x
    proof -
      from that False have "groupKey vt w \<noteq> fst x" by (auto simp: image_iff)
      with inv [OF that] show ?thesis by (rule groupOf_other)
    qed
    have d': "distinct (map fst (?m @ [(groupKey vt w, addTo w (newGroup vt w))]))"
      using d False by simp
    have k: "set (map fst (?m @ [(groupKey vt w, addTo w (newGroup vt w))]))
        = groupKey vt ` set (ws @ [w])"
      using keys by auto
    have "\<forall>x \<in> set (?m @ [(groupKey vt w, addTo w (newGroup vt w))]).
        groupOf vt (ws @ [w]) (fst x) (snd x)"
      using g groupOf_new [OF nk] by auto
    with d' k show ?thesis unfolding e by (intro conjI)
  qed
qed

lemma collect_Inr: "collect (map Inr xs) = Inr xs"
  by (induction xs) auto

lemma groupWeeks_groupOf:
  "e \<in> set (groupWeeks vt ws) \<Longrightarrow> groupOf vt ws (fst e) (snd e)"
  using groupWeeks_invariant [of vt ws] by blast

text \<open>The final \<open>map\<close> never throws: every group holds a week.\<close>

lemma aggregatedData_periods:
  "vt \<noteq> Weekly \<Longrightarrow>
     aggregatedData vt ws
       = Inr (map (\<lambda>e. PeriodEntry (toPeriod vt ws (snd e))) (groupWeeks vt ws))"
proof -
  assume vt: "vt \<noteq> Weekly"
  have one: "finishGroup vt ws (snd e) = Inr (PeriodEntry (toPeriod vt ws (snd e)))"
    if "e \<in> set (groupWeeks vt ws)" for e
  proof -
    from groupWeeks_groupOf [OF that] have "weeks (snd e) \<noteq> []"
      unfolding groupOf_def by blast
    then show ?thesis by (simp add: finishGroup_def)
  qed
  have "map (finishGroup vt ws) (map snd (groupWeeks vt ws))
      = map (\<lambda>e. Inr (PeriodEntry (toPeriod vt ws (snd e)))) (groupWeeks vt ws)"
    unfolding map_map comp_def by (rule map_cong [OF refl]) (rule one)
  also have "\<dots> = map Inr (map (\<lambda>e. PeriodEntry (toPeriod vt ws (snd e))) (groupWeeks vt ws))"
    by (simp add: comp_def)
  finally have "collect (map (finishGroup vt ws) (map snd (groupWeeks vt ws)))
      = Inr (map (\<lambda>e. PeriodEntry (toPeriod vt ws (snd e))) (groupWeeks vt ws))"
    by (simp only: collect_Inr)
  with vt show ?thesis by (simp only: aggregatedData_def if_False)
qed

text \<open>What a period of the result is, in terms of its own weeks.\<close>

lemma period_facts:
  assumes "vt \<noteq> Weekly" "aggregatedData vt ws = Inr ps" "e \<in> set ps"
  shows "\<exists>p. e = PeriodEntry p \<and> weeks p \<noteq> [] \<and> hd (weeks p) \<in> set ws \<and>
      weeks p = filter (\<lambda>w. groupKey vt w = groupKey vt (hd (weeks p))) ws \<and>
      p_income p = sum_list (map income (weeks p)) \<and>
      p_expense p = sum_list (map expense (weeks p)) \<and>
      p_opening p = opening (hd (weeks p)) \<and>
      p_closing p = closing (last (weeks p)) \<and>
      net p = p_income p - p_expense p \<and>
      p_year p = year (hd (weeks p)) \<and> p_month p = month (hd (weeks p)) \<and>
      subType p = subOf vt (hd (weeks p)) \<and>
      p_name p = groupName vt (hd (weeks p)) \<and>
      p_emergencyFund p =
        (if vt = SemiMonthly
         then weekFund ws (p_year p) (p_month p) (if week (hd (weeks p)) \<le> 2 then 2 else 4)
         else weekFund ws (p_year p) (p_month p) 4)"
proof -
  from assms obtain x where x: "x \<in> set (groupWeeks vt ws)"
    and e: "e = PeriodEntry (toPeriod vt ws (snd x))"
    by (auto simp: aggregatedData_periods)
  let ?g = "snd x"
  from groupWeeks_groupOf [OF x] have g: "groupOf vt ws (fst x) ?g" .
  then have w: "weeks ?g = filter (\<lambda>w. groupKey vt w = fst x) ws" "weeks ?g \<noteq> []"
    and k: "groupKey vt (hd (weeks ?g)) = fst x"
    unfolding groupOf_def by blast+
  from w have "hd (weeks ?g) \<in> set (filter (\<lambda>w. groupKey vt w = fst x) ws)"
    by (metis hd_in_set)
  then have h: "hd (weeks ?g) \<in> set ws" by simp
  have ne: "lit_firstHalf \<noteq> lit_secondHalf" "lit_firstHalf \<noteq> []" "lit_secondHalf \<noteq> []"
    by (simp_all add: lit_firstHalf_def lit_secondHalf_def)
  from g have s: "subType ?g = subOf vt (hd (weeks ?g))" "p_year ?g = year (hd (weeks ?g))"
    "p_month ?g = month (hd (weeks ?g))" "p_income ?g = sum_list (map income (weeks ?g))"
    "p_expense ?g = sum_list (map expense (weeks ?g))" "p_opening ?g = opening (hd (weeks ?g))"
    "p_name ?g = groupName vt (hd (weeks ?g))"
    unfolding groupOf_def by blast+
  define p where "p = toPeriod vt ws ?g"
  have pf: "weeks p = weeks ?g" "p_income p = p_income ?g" "p_expense p = p_expense ?g"
    "p_opening p = p_opening ?g" "p_closing p = closing (last (weeks ?g))"
    "net p = p_income ?g - p_expense ?g" "p_year p = p_year ?g" "p_month p = p_month ?g"
    "subType p = subType ?g" "p_name p = p_name ?g" "p_emergencyFund p = efValue vt ws ?g"
    by (simp_all add: p_def toPeriod_def)
  have ef: "efValue vt ws ?g =
      (if vt = SemiMonthly
       then weekFund ws (p_year ?g) (p_month ?g) (if week (hd (weeks ?g)) \<le> 2 then 2 else 4)
       else weekFund ws (p_year ?g) (p_month ?g) 4)"
    using assms(1) ne by (cases vt) (simp_all add: efValue_def s(1) subOf_def)
  have c1: "e = PeriodEntry p" by (simp add: e p_def)
  have c2: "weeks p \<noteq> []" "hd (weeks p) \<in> set ws" unfolding pf by (rule w(2), rule h)
  have c3: "weeks p = filter (\<lambda>w. groupKey vt w = groupKey vt (hd (weeks p))) ws"
    unfolding pf k by (rule w(1))
  have c4: "p_income p = sum_list (map income (weeks p))"
    "p_expense p = sum_list (map expense (weeks p))" "p_opening p = opening (hd (weeks p))"
    "p_closing p = closing (last (weeks p))" "net p = p_income p - p_expense p"
    "p_year p = year (hd (weeks p))" "p_month p = month (hd (weeks p))"
    "subType p = subOf vt (hd (weeks p))" "p_name p = groupName vt (hd (weeks p))"
    unfolding pf by (rule s refl)+
  have c5: "p_emergencyFund p =
        (if vt = SemiMonthly
         then weekFund ws (p_year p) (p_month p) (if week (hd (weeks p)) \<le> 2 then 2 else 4)
         else weekFund ws (p_year p) (p_month p) 4)"
    unfolding pf by (rule ef)
  from c1 c2 c3 c4 c5 show ?thesis by blast
qed

subsection \<open>The periods of the weekly sequence of an input\<close>

lemma weeklyFullData_idents:
  "map ident (weeklyFullData incomes expenses emergencyFunds now)
     = map ident (weekBuckets incomes expenses emergencyFunds now)"
  by (simp add: weeklyFullData_def rollBalances_idents)

lemma weekly_month:
  assumes "w0 \<in> set (weeklyFullData incomes expenses emergencyFunds now)"
  shows "map ident (filter (\<lambda>w. year w = year w0 \<and> month w = month w0)
            (weeklyFullData incomes expenses emergencyFunds now))
     = map (\<lambda>k. (year w0, month w0, k)) [1, 2, 3, 4]"
proof -
  let ?ds = "allDatesOf incomes expenses emergencyFunds"
  let ?wb = "weekBuckets incomes expenses emergencyFunds now"
  from assms have "ident w0 \<in> set (map ident (weeklyFullData incomes expenses emergencyFunds now))"
    by simp
  then have i: "ident w0 \<in> set (map ident ?wb)" by (simp only: weeklyFullData_idents)
  then have ne: "?ds \<noteq> []" "\<not> guardFires ?ds now"
    by (auto simp: weekBuckets_cases split: if_splits)
  from i ne obtain k where k: "monthOrd (rangeStart ?ds) \<le> k" "k \<le> monthOrd (rangeEnd ?ds now)"
    "(year w0, month w0, week w0) \<in> set (monthIdents k)"
    unfolding weekBuckets_idents by (auto simp: ident_def)
  from k(3) have r: "k = 12 * year w0 + int (month w0) - 1" "1 \<le> month w0" "month w0 \<le> 12"
    by (simp_all add: monthIdents_eq_iff)
  have "map ident (filter (\<lambda>w. year w = year w0 \<and> month w = month w0) ?wb)
      = map (\<lambda>k. (year w0, month w0, k)) [1, 2, 3, 4]"
    using k(1,2) r by (intro weekBuckets_month [OF ne]) simp_all
  moreover have "map ident (filter (\<lambda>w. year w = year w0 \<and> month w = month w0)
      (weeklyFullData incomes expenses emergencyFunds now))
      = map ident (filter (\<lambda>w. year w = year w0 \<and> month w = month w0) ?wb)"
    using rollBalances_filter_idents [of "\<lambda>(y, m, w). y = year w0 \<and> m = month w0"
        INITIAL_BALANCE ?wb]
    by (simp add: weeklyFullData_def ident_def)
  ultimately show ?thesis by simp
qed

lemma four_weeks:
  assumes "map ident F = map (\<lambda>k. (y, m, k)) [1, 2, 3, 4]"
  shows "\<exists>w1 w2 w3 w4. F = [w1, w2, w3, w4] \<and>
      week w1 = 1 \<and> week w2 = 2 \<and> week w3 = 3 \<and> week w4 = 4 \<and>
      (\<forall>w \<in> set F. year w = y \<and> month w = m)"
  using assms by (auto simp: map_eq_Cons_conv ident_def)

lemma weekFund_month:
  "weekFund ws y m k
     = (case find (\<lambda>w. week w = k) (filter (\<lambda>w. year w = y \<and> month w = m) ws) of
          Some w \<Rightarrow> emergencyFund w | None \<Rightarrow> 0)"
proof -
  have "find (\<lambda>w. year w = y \<and> month w = m \<and> week w = k) ws
      = find (\<lambda>w. week w = k) (filter (\<lambda>w. year w = y \<and> month w = m) ws)"
    by (induction ws) auto
  then show ?thesis unfolding weekFund_def by (rule arg_cong)
qed

lemma groupKey_month:
  "(\<lambda>w. groupKey vt w = groupKey vt w0)
     = (\<lambda>w. (year w = year w0 \<and> month w = month w0) \<and> subOf vt w = subOf vt w0)"
  by (auto simp: groupKey_inj)

lemma halves_differ: "lit_firstHalf \<noteq> lit_secondHalf"
  by (simp add: lit_firstHalf_def lit_secondHalf_def)

lemma pipeline_period:
  assumes "vt \<noteq> Weekly"
    and "aggregatedData vt (weeklyFullData incomes expenses emergencyFunds now) = Inr ps"
    and "x \<in> set ps"
  shows "\<exists>p w1 w2 w3 w4. x = PeriodEntry p \<and>
      filter (\<lambda>w. year w = p_year p \<and> month w = p_month p)
        (weeklyFullData incomes expenses emergencyFunds now) = [w1, w2, w3, w4] \<and>
      week w1 = 1 \<and> week w2 = 2 \<and> week w3 = 3 \<and> week w4 = 4 \<and>
      weeks p = (if vt = Monthly then [w1, w2, w3, w4]
                 else if subType p = lit_firstHalf then [w1, w2] else [w3, w4]) \<and>
      (vt = SemiMonthly \<longrightarrow> subType p = lit_firstHalf \<or> subType p = lit_secondHalf) \<and>
      p_emergencyFund p = emergencyFund (last (weeks p)) \<and>
      p_income p = sum_list (map income (weeks p)) \<and>
      p_expense p = sum_list (map expense (weeks p)) \<and>
      p_opening p = opening (hd (weeks p)) \<and>
      p_closing p = closing (last (weeks p)) \<and>
      net p = p_income p - p_expense p"
proof -
  let ?ws = "weeklyFullData incomes expenses emergencyFunds now"
  from period_facts [OF assms] obtain p where p: "x = PeriodEntry p"
    and ne: "weeks p \<noteq> []" and h: "hd (weeks p) \<in> set ?ws"
    and wk: "weeks p = filter (\<lambda>w. groupKey vt w = groupKey vt (hd (weeks p))) ?ws"
    and sums: "p_income p = sum_list (map income (weeks p))"
      "p_expense p = sum_list (map expense (weeks p))"
      "p_opening p = opening (hd (weeks p))" "p_closing p = closing (last (weeks p))"
      "net p = p_income p - p_expense p"
    and ym: "p_year p = year (hd (weeks p))" "p_month p = month (hd (weeks p))"
    and st: "subType p = subOf vt (hd (weeks p))"
    and ef: "p_emergencyFund p =
        (if vt = SemiMonthly
         then weekFund ?ws (p_year p) (p_month p) (if week (hd (weeks p)) \<le> 2 then 2 else 4)
         else weekFund ?ws (p_year p) (p_month p) 4)"
    by blast
  define w0 where "w0 = hd (weeks p)"
  define F where "F = filter (\<lambda>w. year w = p_year p \<and> month w = p_month p) ?ws"
  have "map ident F = map (\<lambda>k. (p_year p, p_month p, k)) [1, 2, 3, 4]"
    unfolding F_def ym by (rule weekly_month [OF h])
  from four_weeks [OF this] obtain w1 w2 w3 w4 where F: "F = [w1, w2, w3, w4]"
    and w: "week w1 = 1" "week w2 = 2" "week w3 = 3" "week w4 = 4" by blast
  have "weeks p = filter (\<lambda>w. subOf vt w = subOf vt w0) F"
    unfolding F_def ym w0_def filter_filter
    by (subst wk) (simp only: groupKey_month conj_commute)
  then have wp: "weeks p = filter (\<lambda>w. subOf vt w = subOf vt w0) [w1, w2, w3, w4]"
    by (simp only: F)
  have f4: "find (\<lambda>w. week w = 4) F = Some w4" and f2: "find (\<lambda>w. week w = 2) F = Some w2"
    using w by (simp_all add: F)
  have fund: "weekFund ?ws (p_year p) (p_month p) 4 = emergencyFund w4"
    "weekFund ?ws (p_year p) (p_month p) 2 = emergencyFund w2"
    unfolding weekFund_month F_def [symmetric] f4 f2 by simp_all
  show ?thesis
  proof (cases vt)
    case Weekly
    with assms(1) show ?thesis by simp
  next
    case Monthly
    then have a: "weeks p = [w1, w2, w3, w4]" using wp by (simp add: subOf_def)
    have b: "p_emergencyFund p = emergencyFund (last (weeks p))"
      using ef fund(1) Monthly by (simp add: a)
    from p F a b w sums Monthly show ?thesis unfolding F_def by auto
  next
    case SemiMonthly
    show ?thesis
    proof (cases "week w0 \<le> 2")
      case True
      then have s: "subType p = lit_firstHalf" using st SemiMonthly by (simp add: subOf_def w0_def)
      have a: "weeks p = [w1, w2]"
        using wp w True SemiMonthly halves_differ by (simp add: subOf_def)
      have b: "p_emergencyFund p = emergencyFund (last (weeks p))"
        using ef fund(2) SemiMonthly True by (simp add: a w0_def)
      from p F a b w sums SemiMonthly s show ?thesis unfolding F_def by auto
    next
      case False
      then have s: "subType p = lit_secondHalf" using st SemiMonthly by (simp add: subOf_def w0_def)
      have a: "weeks p = [w3, w4]"
        using wp w False SemiMonthly halves_differ by (simp add: subOf_def)
      have b: "p_emergencyFund p = emergencyFund (last (weeks p))"
        using ef fund(1) SemiMonthly False by (simp add: a w0_def)
      from p F a b w sums SemiMonthly s halves_differ show ?thesis unfolding F_def by auto
    qed
  qed
qed

lemma same_sub:
  assumes wk: "weeks p = filter (\<lambda>w. groupKey vt w = groupKey vt (hd (weeks p))) ws"
   and "w \<in> set (weeks p)"
  shows "subOf vt w = subOf vt (hd (weeks p))"
proof -
  from assms(2) have "w \<in> set (filter (\<lambda>w. groupKey vt w = groupKey vt (hd (weeks p))) ws)"
    by (simp only: wk [symmetric])
  then have "groupKey vt w = groupKey vt (hd (weeks p))" by simp
  then show ?thesis by (simp only: groupKey_inj)
qed

subsection \<open>Evaluating the aggregation on the scenarios\<close>

lemmas aggregate_defs = aggregatedData_def groupWeeks_def addWeek_def groupKey_def newGroup_def
  groupName_def subOf_def addTo_def finishGroup_def toPeriod_def efValue_def weekFund_def
  numToString_def digitsOf.simps Let_def lit_firstHalf_def lit_secondHalf_def entriesOf_def
  weeksFundSum_def

lemma weekBuckets_fundItems:
  "weekBuckets [] [] fundItems march20 =
     [(newBucket 2024 3 1)\<lparr>emergencyFund := 10\<rparr>, newBucket 2024 3 2, newBucket 2024 3 3,
      (newBucket 2024 3 4)\<lparr>emergencyFund := 20\<rparr>]"
  by (simp add: weekBuckets_def rangeStart_def rangeEnd_def mkItem_def march20_def earlier_def
      weeksLoop_march [simplified newDate_def, simplified] newDate_def populate_def
      populateItem_def excluded_def itemKey_def getWeekIndex_def newBucket_def weekKey_march
      addField_def fundItems_def)

lemma marchWeeks_eq: "marchWeeks = rollBalances INITIAL_BALANCE marchBuckets"
  by (simp add: marchWeeks_def weeklyFullData_def weekBuckets_march)

lemma fundWeeks_eq:
  "fundWeeks = rollBalances INITIAL_BALANCE
     [(newBucket 2024 3 1)\<lparr>emergencyFund := 10\<rparr>, newBucket 2024 3 2, newBucket 2024 3 3,
      (newBucket 2024 3 4)\<lparr>emergencyFund := 20\<rparr>]"
  by (simp add: fundWeeks_def weeklyFullData_def weekBuckets_fundItems)

lemma march_monthly:
  "map entryIncome (entriesOf (aggregatedData Monthly marchWeeks)) = [5000]"
  "map entryExpense (entriesOf (aggregatedData Monthly marchWeeks)) = [2000]"
  "map entryOpening (entriesOf (aggregatedData Monthly marchWeeks)) = [1016000]"
  "map entryClosing (entriesOf (aggregatedData Monthly marchWeeks)) = [1019000]"
  "map entryNet (entriesOf (aggregatedData Monthly marchWeeks)) = [Some 3000]"
  by (simp_all add: aggregate_defs marchWeeks_eq marchBuckets_def newBucket_def
      INITIAL_BALANCE_def)

lemma march_full_monthly:
  "map entryIncome (entriesOf (aggregatedData Monthly
     (weeklyFullData [mkItem 2024 2 5 5000 []] [mkItem 2024 2 10 2000 []] [] march20))) = [5000]"
  "map entryClosing (entriesOf (aggregatedData Monthly
     (weeklyFullData [mkItem 2024 2 5 5000 []] [mkItem 2024 2 10 2000 []] [] march20))) = [1019000]"
  by (simp_all add: aggregate_defs weeklyFullData_def weekBuckets_march marchBuckets_def
      newBucket_def INITIAL_BALANCE_def)

lemma fundItems_values:
  "map entryEmergencyFund (entriesOf (aggregatedData Monthly (weeklyFullData [] [] fundItems march20))) = [20]"
  "map weeksFundSum (entriesOf (aggregatedData Monthly (weeklyFullData [] [] fundItems march20))) = [Some 30]"
  "map entryEmergencyFund (entriesOf (aggregatedData SemiMonthly (weeklyFullData [] [] fundItems march20))) = [0, 20]"
  "map entrySubType (entriesOf (aggregatedData SemiMonthly (weeklyFullData [] [] fundItems march20)))
     = [Some lit_firstHalf, Some lit_secondHalf]"
  by (simp_all add: aggregate_defs weeklyFullData_def weekBuckets_fundItems newBucket_def
      INITIAL_BALANCE_def)

section \<open>Lookup by name\<close>

lemma findIndexFrom_eq:
  "findIndexFrom i P xs =
     (if \<exists>x \<in> set xs. P x then i + int (length (takeWhile (\<lambda>x. \<not> P x) xs)) else - 1)"
  by (induction xs arbitrary: i) auto

lemma findIndex_absent: "findIndex P xs = - 1 \<longleftrightarrow> \<not> (\<exists>x \<in> set xs. P x)"
  by (simp add: findIndex_def findIndexFrom_eq)

lemma findIndex_present:
  assumes "\<exists>x \<in> set xs. P x"
  shows "0 \<le> findIndex P xs" "nat (findIndex P xs) < length xs" "P (xs ! nat (findIndex P xs))"
    "\<forall>k < nat (findIndex P xs). \<not> P (xs ! k)"
    "findIndex P xs = int (length (takeWhile (\<lambda>x. \<not> P x) xs))"
proof -
  let ?n = "length (takeWhile (\<lambda>x. \<not> P x) xs)"
  show e: "findIndex P xs = int ?n" using assms by (simp add: findIndex_def findIndexFrom_eq)
  from assms have n: "?n < length xs" by (induction xs) auto
  show "0 \<le> findIndex P xs" by (simp add: e)
  show "nat (findIndex P xs) < length xs" using n by (simp add: e)
  show "P (xs ! nat (findIndex P xs))"
    using nth_length_takeWhile [OF n] by (simp add: e)
  show "\<forall>k < nat (findIndex P xs). \<not> P (xs ! k)"
  proof (intro allI impI)
    fix k assume "k < nat (findIndex P xs)"
    then have k: "k < ?n" by (simp add: e)
    from takeWhile_nth [OF k] nth_mem [of k "takeWhile (\<lambda>x. \<not> P x) xs"] k
    have "xs ! k \<in> set (takeWhile (\<lambda>x. \<not> P x) xs)" by metis
    then show "\<not> P (xs ! k)" by (rule set_takeWhileD [THEN conjunct2])
  qed
qed

lemma findIndex_first: "P x \<Longrightarrow> findIndex P (x # xs) = 0"
  by (simp add: findIndex_def)

lemma marchEntries_names:
  "map entryName marchEntries
     = [weekName 2024 3 1, weekName 2024 3 2, weekName 2024 3 3, weekName 2024 3 4]"
  by (simp add: marchEntries_def marchWeeks_eq marchBuckets_def newBucket_def)

lemma weekName_march:
  "weekName 2024 3 1 = [50, 48, 50, 52, 24180, 51, 26376, 32, 31532, 49, 21608]"
  "weekName 2024 3 2 = [50, 48, 50, 52, 24180, 51, 26376, 32, 31532, 50, 21608]"
  "weekName 2024 3 3 = [50, 48, 50, 52, 24180, 51, 26376, 32, 31532, 51, 21608]"
  "weekName 2024 3 4 = [50, 48, 50, 52, 24180, 51, 26376, 32, 31532, 52, 21608]"
  by (simp_all add: weekName_def numToString_def digitsOf.simps)

lemma marchEntries_length: "length marchEntries = 4"
  using arg_cong [OF marchEntries_names, of length] by simp

lemma weekName_not_Nil: "weekName y m w \<noteq> []"
  by (simp add: weekName_def)

subsection \<open>Names of periods\<close>

lemma sep_first:
  assumes "c \<notin> set xs" "c \<notin> set xs'" "xs @ c # r = xs' @ c # r'"
  shows "xs = xs' \<and> r = r'"
  using assms
  by (auto simp: append_eq_append_conv2 Cons_eq_append_conv append_eq_Cons_conv)

lemma numToString_range: "c \<in> set (numToString i) \<Longrightarrow> c = 45 \<or> (48 \<le> c \<and> c \<le> 57)"
  using digitsOf_range by (auto simp: numToString_def split: if_splits)

lemma numToString_no_letter: "57 < c \<Longrightarrow> c \<notin> set (numToString i)"
  using numToString_range [of c i] by auto

lemma yearMonth_inj:
  assumes "numToString y @ [24180] @ numToString (int m) @ 26376 # r
         = numToString y' @ [24180] @ numToString (int m') @ 26376 # r'"
  shows "y = y' \<and> m = m' \<and> r = r'"
proof -
  from assms have "numToString y @ 24180 # (numToString (int m) @ 26376 # r)
      = numToString y' @ 24180 # (numToString (int m') @ 26376 # r')" by simp
  from sep_first [OF _ _ this]
  have a: "numToString y = numToString y'"
    and b: "numToString (int m) @ 26376 # r = numToString (int m') @ 26376 # r'"
    by (simp_all add: numToString_no_letter)
  from sep_first [OF _ _ b] have "numToString (int m) = numToString (int m')" "r = r'"
    by (simp_all add: numToString_no_letter)
  with a show ?thesis by (auto dest: numToString_inj)
qed

lemma weekName_inj: "weekName y m w = weekName y' m' w' \<longleftrightarrow> y = y' \<and> m = m' \<and> w = w'"
proof
  assume "weekName y m w = weekName y' m' w'"
  then have "numToString y @ [24180] @ numToString (int m) @ 26376 # ([32, 31532] @ numToString (int w) @ [21608])
      = numToString y' @ [24180] @ numToString (int m') @ 26376 # ([32, 31532] @ numToString (int w') @ [21608])"
    by (simp add: weekName_def)
  from yearMonth_inj [OF this] show "y = y' \<and> m = m' \<and> w = w'"
    by (auto dest: numToString_inj)
qed simp

lemma groupName_inj:
  "groupName vt w = groupName vt w' \<longleftrightarrow>
     year w = year w' \<and> month w = month w' \<and> subOf vt w = subOf vt w'"
proof
  assume e: "groupName vt w = groupName vt w'"
  show "year w = year w' \<and> month w = month w' \<and> subOf vt w = subOf vt w'"
  proof (cases "vt = SemiMonthly")
    case True
    with e have "numToString (year w) @ [24180] @ numToString (int (month w)) @ 26376 # (32 # subOf vt w)
        = numToString (year w') @ [24180] @ numToString (int (month w')) @ 26376 # (32 # subOf vt w')"
      by (simp add: groupName_def)
    from yearMonth_inj [OF this] show ?thesis by simp
  next
    case False
    with e have "numToString (year w) @ [24180] @ numToString (int (month w)) @ 26376 # []
        = numToString (year w') @ [24180] @ numToString (int (month w')) @ 26376 # []"
      by (simp add: groupName_def)
    from yearMonth_inj [OF this] False show ?thesis by (simp add: subOf_def)
  qed
next
  assume "year w = year w' \<and> month w = month w' \<and> subOf vt w = subOf vt w'"
  then show "groupName vt w = groupName vt w'" by (auto simp: groupName_def)
qed

text \<open>The name of the period of a date is the name that the pipeline gives to the week, the
  half month or the month with the year, the month and the week of the month of the date.\<close>

lemma todayName_week:
  "getPeriodNameFromDate d Weekly
     = weekName (getFullYear d) (getMonth d + 1) (getWeekIndex (getDate d))"
  by (simp add: getPeriodNameFromDate_def weekName_def Let_def)

lemma todayName_group:
  assumes "vt \<noteq> Weekly" "year w = getFullYear d" "month w = getMonth d + 1"
    "week w \<le> 2 \<longleftrightarrow> getWeekIndex (getDate d) \<le> 2"
  shows "getPeriodNameFromDate d vt = groupName vt w"
  using assms by (cases vt) (simp_all add: getPeriodNameFromDate_def groupName_def subOf_def Let_def)

subsection \<open>Navigation\<close>

lemma selectAt_in_range:
  "0 \<le> i \<Longrightarrow> i < int (length aggregated) \<Longrightarrow>
     selectAt aggregated i s = Inr (s\<lparr>selectedFilter := entryName (aggregated ! nat i)\<rparr>)"
  by (simp add: selectAt_def elemAt_def)

lemma anchorIndex_range:
  "anchorIndex aggregated selected = - 1 \<or>
   (0 \<le> anchorIndex aggregated selected \<and> anchorIndex aggregated selected < int (length aggregated))"
proof (cases "\<exists>d \<in> set aggregated. entryName d = selected")
  case True
  from findIndex_present(1,2) [OF True] show ?thesis by (simp add: anchorIndex_def)
next
  case False
  then show ?thesis by (simp add: anchorIndex_def findIndex_absent)
qed

lemma marchEntries_absent: "anchorIndex marchEntries [] = - 1"
proof -
  have "[] \<notin> set (map entryName marchEntries)"
    unfolding marchEntries_names using weekName_not_Nil by (simp add: eq_commute [of "[]"])
  then have "\<not> (\<exists>d \<in> set marchEntries. entryName d = [])" by (metis image_eqI list.set_map)
  then show ?thesis by (simp add: anchorIndex_def findIndex_absent)
qed

section \<open>Claims\<close>

text \<open>
  C1 (balance chain). For every starting balance and every bucket sequence the
  rolling-balance pass opens its first week with the starting balance, opens every later
  week with the closing balance of the week before, and closes every week with
  opening + income - expense. The weekly sequence of the program is this pass from
  \<open>INITIAL_BALANCE\<close> over the buckets of the input, so the chain holds along the whole
  of it, for every transaction input and current date.
\<close>

theorem balance_chain:
  "(buckets \<noteq> [] \<longrightarrow> opening (rollBalances bal buckets ! 0) = bal) \<and>
   (\<forall>i. 0 < i \<and> i < length (rollBalances bal buckets) \<longrightarrow>
      opening (rollBalances bal buckets ! i) = closing (rollBalances bal buckets ! (i - 1))) \<and>
   (\<forall>w \<in> set (rollBalances bal buckets). closing w = opening w + income w - expense w) \<and>
   (weeklyFullData incomes expenses emergencyFunds now \<noteq> [] \<longrightarrow>
      opening (weeklyFullData incomes expenses emergencyFunds now ! 0) = INITIAL_BALANCE) \<and>
   (\<forall>i. 0 < i \<and> i < length (weeklyFullData incomes expenses emergencyFunds now) \<longrightarrow>
      opening (weeklyFullData incomes expenses emergencyFunds now ! i) =
      closing (weeklyFullData incomes expenses emergencyFunds now ! (i - 1))) \<and>
   (\<forall>w \<in> set (weeklyFullData incomes expenses emergencyFunds now).
      closing w = opening w + income w - expense w)"
proof -
  have chain: "opening (rollBalances b ws ! i) = closing (rollBalances b ws ! (i - 1))"
    if "0 < i" "i < length (rollBalances b ws)" for b ws i
  proof -
    from that obtain j where j: "i = Suc j" by (cases i) auto
    with that have "Suc j < length ws" by (simp add: rollBalances_length)
    then show ?thesis unfolding j by (simp add: rollBalances_step)
  qed
  have first: "opening (rollBalances b ws ! 0) = b" if "rollBalances b ws \<noteq> []" for b ws
    using that by (cases ws) auto
  show ?thesis
    unfolding weeklyFullData_def
    using chain first rollBalances_closing rollBalances_first by blast
qed

theorem balance_chain_witness:
  "weeklyFullData [mkItem 2024 2 5 5000 []] [mkItem 2024 2 10 2000 []] [] march20 \<noteq> [] \<and>
   opening (weeklyFullData [mkItem 2024 2 5 5000 []] [mkItem 2024 2 10 2000 []] [] march20 ! 0)
     = INITIAL_BALANCE \<and>
   opening (weeklyFullData [mkItem 2024 2 5 5000 []] [mkItem 2024 2 10 2000 []] [] march20 ! 1)
     = closing (weeklyFullData [mkItem 2024 2 5 5000 []] [mkItem 2024 2 10 2000 []] [] march20 ! 0) \<and>
   closing (weeklyFullData [mkItem 2024 2 5 5000 []] [mkItem 2024 2 10 2000 []] [] march20 ! 1)
     = 1019000 \<and>
   map opening (rollBalances 100000 marchBuckets) = [100000, 105000, 103000, 103000] \<and>
   map closing (rollBalances 100000 marchBuckets) = [105000, 103000, 103000, 103000]"
proof -
  let ?ws = "weeklyFullData [mkItem 2024 2 5 5000 []] [mkItem 2024 2 10 2000 []] [] march20"
  have len: "length ?ws = 4" by (rule weeklyFullData_march_length)
  then have ne: "?ws \<noteq> []" by auto
  note bc = balance_chain [of marchBuckets 100000 "[mkItem 2024 2 5 5000 []]"
      "[mkItem 2024 2 10 2000 []]" "[]" march20]
  from bc ne have a: "opening (?ws ! 0) = INITIAL_BALANCE" by blast
  from bc len have b: "opening (?ws ! 1) = closing (?ws ! 0)" by force
  have c: "closing (?ws ! 1) = 1019000"
    by (simp add: weeklyFullData_def weekBuckets_march marchBuckets_def newBucket_def
        INITIAL_BALANCE_def)
  have d: "map opening (rollBalances 100000 marchBuckets) = [100000, 105000, 103000, 103000]"
    "map closing (rollBalances 100000 marchBuckets) = [105000, 103000, 103000, 103000]"
    by (simp_all add: marchBuckets_def newBucket_def)
  from ne a b c d show ?thesis by blast
qed

text \<open>
  C2 (emergency-fund snapshot). For the semi-monthly view every period is a first half (all
  its weeks are weeks 1 or 2) whose emergency fund is that of the first week 2 of its month
  in the weekly sequence, or a second half (all its weeks are after week 2) whose emergency
  fund is that of the first week 4 of its month; for the monthly view the emergency fund of
  every period is that of the first week 4 of its month; the value is 0 when the sequence
  has no such week. The value is taken from that one week and is not accumulated over the
  period: on the weekly sequence of an input that week is the last constituent week of the
  period, so the emergency fund of the period is the fund of its last week whatever the
  funds of its other weeks are, and it differs from the sum over the constituent weeks
  exactly when the funds of the other weeks do not add up to zero.
\<close>

theorem emergency_fund_snapshot:
  assumes "vt \<noteq> Weekly"
  shows "(\<exists>ps. aggregatedData vt ws = Inr ps \<and>
      (\<forall>x \<in> set ps. \<exists>p. x = PeriodEntry p \<and>
         (vt = SemiMonthly \<longrightarrow>
            (subType p = lit_firstHalf \<and> (\<forall>w \<in> set (weeks p). week w \<le> 2) \<and>
             p_emergencyFund p =
               (case find (\<lambda>w. year w = p_year p \<and> month w = p_month p \<and> week w = 2) ws of
                  Some w \<Rightarrow> emergencyFund w | None \<Rightarrow> 0)) \<or>
            (subType p = lit_secondHalf \<and> (\<forall>w \<in> set (weeks p). 2 < week w) \<and>
             p_emergencyFund p =
               (case find (\<lambda>w. year w = p_year p \<and> month w = p_month p \<and> week w = 4) ws of
                  Some w \<Rightarrow> emergencyFund w | None \<Rightarrow> 0))) \<and>
         (vt = Monthly \<longrightarrow>
            p_emergencyFund p =
              (case find (\<lambda>w. year w = p_year p \<and> month w = p_month p \<and> week w = 4) ws of
                 Some w \<Rightarrow> emergencyFund w | None \<Rightarrow> 0)))) \<and>
   (\<exists>ps. aggregatedData vt (weeklyFullData incomes expenses emergencyFunds now) = Inr ps \<and>
      (\<forall>x \<in> set ps. \<exists>p. x = PeriodEntry p \<and> weeks p \<noteq> [] \<and>
         p_emergencyFund p = emergencyFund (last (weeks p)) \<and>
         (p_emergencyFund p = sum_list (map emergencyFund (weeks p)) \<longleftrightarrow>
          sum_list (map emergencyFund (butlast (weeks p))) = 0)))"
proof (intro conjI)
  obtain ps where ps: "aggregatedData vt ws = Inr ps"
    using assms by (simp add: aggregatedData_periods)
  have A: "\<exists>p. x = PeriodEntry p \<and>
         (vt = SemiMonthly \<longrightarrow>
            (subType p = lit_firstHalf \<and> (\<forall>w \<in> set (weeks p). week w \<le> 2) \<and>
             p_emergencyFund p = weekFund ws (p_year p) (p_month p) 2) \<or>
            (subType p = lit_secondHalf \<and> (\<forall>w \<in> set (weeks p). 2 < week w) \<and>
             p_emergencyFund p = weekFund ws (p_year p) (p_month p) 4)) \<and>
         (vt = Monthly \<longrightarrow> p_emergencyFund p = weekFund ws (p_year p) (p_month p) 4)"
    if "x \<in> set ps" for x
  proof -
    from period_facts [OF assms ps that] obtain p where p: "x = PeriodEntry p"
      and wk: "weeks p = filter (\<lambda>w. groupKey vt w = groupKey vt (hd (weeks p))) ws"
      and st: "subType p = subOf vt (hd (weeks p))"
      and ef: "p_emergencyFund p =
        (if vt = SemiMonthly
         then weekFund ws (p_year p) (p_month p) (if week (hd (weeks p)) \<le> 2 then 2 else 4)
         else weekFund ws (p_year p) (p_month p) 4)"
      by blast
    note same = same_sub [OF wk]
    show ?thesis
    proof (cases vt)
      case Weekly
      with assms show ?thesis by simp
    next
      case Monthly
      with ef have "p_emergencyFund p = weekFund ws (p_year p) (p_month p) 4" by simp
      with p Monthly show ?thesis by (intro exI [of _ p]) simp
    next
      case SemiMonthly
      show ?thesis
      proof (cases "week (hd (weeks p)) \<le> 2")
        case True
        have "week w \<le> 2" if "w \<in> set (weeks p)" for w
          using same [OF that] True SemiMonthly halves_differ
          by (simp add: subOf_def split: if_splits)
        moreover have "subType p = lit_firstHalf" using st True SemiMonthly by (simp add: subOf_def)
        moreover have "p_emergencyFund p = weekFund ws (p_year p) (p_month p) 2"
          using ef True SemiMonthly by simp
        ultimately show ?thesis using p SemiMonthly by (intro exI [of _ p]) simp
      next
        case False
        have "2 < week w" if "w \<in> set (weeks p)" for w
          using same [OF that] False SemiMonthly halves_differ
          by (simp add: subOf_def split: if_splits)
        moreover have "subType p = lit_secondHalf" using st False SemiMonthly by (simp add: subOf_def)
        moreover have "p_emergencyFund p = weekFund ws (p_year p) (p_month p) 4"
          using ef False SemiMonthly by simp
        ultimately show ?thesis using p SemiMonthly by (intro exI [of _ p]) simp
      qed
    qed
  qed
  show "\<exists>ps. aggregatedData vt ws = Inr ps \<and>
      (\<forall>x \<in> set ps. \<exists>p. x = PeriodEntry p \<and>
         (vt = SemiMonthly \<longrightarrow>
            (subType p = lit_firstHalf \<and> (\<forall>w \<in> set (weeks p). week w \<le> 2) \<and>
             p_emergencyFund p =
               (case find (\<lambda>w. year w = p_year p \<and> month w = p_month p \<and> week w = 2) ws of
                  Some w \<Rightarrow> emergencyFund w | None \<Rightarrow> 0)) \<or>
            (subType p = lit_secondHalf \<and> (\<forall>w \<in> set (weeks p). 2 < week w) \<and>
             p_emergencyFund p =
               (case find (\<lambda>w. year w = p_year p \<and> month w = p_month p \<and> week w = 4) ws of
                  Some w \<Rightarrow> emergencyFund w | None \<Rightarrow> 0))) \<and>
         (vt = Monthly \<longrightarrow>
            p_emergencyFund p =
              (case find (\<lambda>w. year w = p_year p \<and> month w = p_month p \<and> week w = 4) ws of
                 Some w \<Rightarrow> emergencyFund w | None \<Rightarrow> 0)))"
  proof (intro exI [of _ ps] conjI ballI)
    show "aggregatedData vt ws = Inr ps" by (rule ps)
  next
    fix x assume "x \<in> set ps"
    from A [OF this] show "\<exists>p. x = PeriodEntry p \<and>
         (vt = SemiMonthly \<longrightarrow>
            (subType p = lit_firstHalf \<and> (\<forall>w \<in> set (weeks p). week w \<le> 2) \<and>
             p_emergencyFund p =
               (case find (\<lambda>w. year w = p_year p \<and> month w = p_month p \<and> week w = 2) ws of
                  Some w \<Rightarrow> emergencyFund w | None \<Rightarrow> 0)) \<or>
            (subType p = lit_secondHalf \<and> (\<forall>w \<in> set (weeks p). 2 < week w) \<and>
             p_emergencyFund p =
               (case find (\<lambda>w. year w = p_year p \<and> month w = p_month p \<and> week w = 4) ws of
                  Some w \<Rightarrow> emergencyFund w | None \<Rightarrow> 0))) \<and>
         (vt = Monthly \<longrightarrow>
            p_emergencyFund p =
              (case find (\<lambda>w. year w = p_year p \<and> month w = p_month p \<and> week w = 4) ws of
                 Some w \<Rightarrow> emergencyFund w | None \<Rightarrow> 0))"
      unfolding weekFund_def .
  qed
next
  let ?ws = "weeklyFullData incomes expenses emergencyFunds now"
  obtain ps where ps: "aggregatedData vt ?ws = Inr ps"
    using assms by (simp add: aggregatedData_periods)
  have B: "\<exists>p. x = PeriodEntry p \<and> weeks p \<noteq> [] \<and>
         p_emergencyFund p = emergencyFund (last (weeks p)) \<and>
         (p_emergencyFund p = sum_list (map emergencyFund (weeks p)) \<longleftrightarrow>
          sum_list (map emergencyFund (butlast (weeks p))) = 0)" if "x \<in> set ps" for x
  proof -
    from pipeline_period [OF assms ps that] obtain p w1 w2 w3 w4 where p: "x = PeriodEntry p"
      and wp: "weeks p = (if vt = Monthly then [w1, w2, w3, w4]
                 else if subType p = lit_firstHalf then [w1, w2] else [w3, w4])"
      and ef: "p_emergencyFund p = emergencyFund (last (weeks p))"
      by blast
    from wp have ne: "weeks p \<noteq> []" by (simp split: if_splits)
    have "sum_list (map emergencyFund (butlast (weeks p) @ [last (weeks p)]))
        = sum_list (map emergencyFund (butlast (weeks p))) + emergencyFund (last (weeks p))"
      by simp
    then have split: "sum_list (map emergencyFund (weeks p))
        = sum_list (map emergencyFund (butlast (weeks p))) + emergencyFund (last (weeks p))"
      by (simp only: append_butlast_last_id [OF ne])
    have "(p_emergencyFund p = sum_list (map emergencyFund (weeks p))) \<longleftrightarrow>
          sum_list (map emergencyFund (butlast (weeks p))) = 0"
      unfolding ef split by linarith
    with p ne ef show ?thesis by (intro exI conjI)
  qed
  show "\<exists>ps. aggregatedData vt ?ws = Inr ps \<and>
      (\<forall>x \<in> set ps. \<exists>p. x = PeriodEntry p \<and> weeks p \<noteq> [] \<and>
         p_emergencyFund p = emergencyFund (last (weeks p)) \<and>
         (p_emergencyFund p = sum_list (map emergencyFund (weeks p)) \<longleftrightarrow>
          sum_list (map emergencyFund (butlast (weeks p))) = 0))"
  proof (intro exI [of _ ps] conjI ballI)
    show "aggregatedData vt ?ws = Inr ps" by (rule ps)
  next
    fix x assume "x \<in> set ps"
    then show "\<exists>p. x = PeriodEntry p \<and> weeks p \<noteq> [] \<and>
         p_emergencyFund p = emergencyFund (last (weeks p)) \<and>
         (p_emergencyFund p = sum_list (map emergencyFund (weeks p)) \<longleftrightarrow>
          sum_list (map emergencyFund (butlast (weeks p))) = 0)" by (rule B)
  qed
qed

theorem emergency_fund_snapshot_witness:
  "Monthly \<noteq> Weekly \<and> SemiMonthly \<noteq> Weekly \<and>
   (\<exists>p. aggregatedData Monthly (weeklyFullData [] [] fundItems march20) = Inr [PeriodEntry p] \<and>
      p_emergencyFund p = 20 \<and> sum_list (map emergencyFund (weeks p)) = 30 \<and>
      p_emergencyFund p = emergencyFund (last (weeks p)) \<and>
      sum_list (map emergencyFund (butlast (weeks p))) \<noteq> 0 \<and>
      p_emergencyFund p =
        (case find (\<lambda>w. year w = p_year p \<and> month w = p_month p \<and> week w = 4)
                (weeklyFullData [] [] fundItems march20) of
           Some w \<Rightarrow> emergencyFund w | None \<Rightarrow> 0)) \<and>
   (\<exists>p q. aggregatedData SemiMonthly (weeklyFullData [] [] fundItems march20)
        = Inr [PeriodEntry p, PeriodEntry q] \<and>
      subType p = lit_firstHalf \<and> p_emergencyFund p = 0 \<and>
      p_emergencyFund p =
        (case find (\<lambda>w. year w = p_year p \<and> month w = p_month p \<and> week w = 2)
                (weeklyFullData [] [] fundItems march20) of
           Some w \<Rightarrow> emergencyFund w | None \<Rightarrow> 0) \<and>
      subType q = lit_secondHalf \<and> p_emergencyFund q = 20 \<and>
      p_emergencyFund q =
        (case find (\<lambda>w. year w = p_year q \<and> month w = p_month q \<and> week w = 4)
                (weeklyFullData [] [] fundItems march20) of
           Some w \<Rightarrow> emergencyFund w | None \<Rightarrow> 0))"
proof -
  let ?ws = "weeklyFullData [] [] fundItems march20"
  have m: "Monthly \<noteq> Weekly" and s: "SemiMonthly \<noteq> Weekly" by simp_all
  note tm = emergency_fund_snapshot [OF m, of ?ws "[]" "[]" fundItems march20]
  note ts = emergency_fund_snapshot [OF s, of ?ws "[]" "[]" fundItems march20]
  from tm [THEN conjunct1] obtain ps where ps: "aggregatedData Monthly ?ws = Inr ps"
    and a0: "\<forall>x \<in> set ps. \<exists>p. x = PeriodEntry p \<and>
         (Monthly = SemiMonthly \<longrightarrow>
            (subType p = lit_firstHalf \<and> (\<forall>w \<in> set (weeks p). week w \<le> 2) \<and>
             p_emergencyFund p =
               (case find (\<lambda>w. year w = p_year p \<and> month w = p_month p \<and> week w = 2) ?ws of
                  Some w \<Rightarrow> emergencyFund w | None \<Rightarrow> 0)) \<or>
            (subType p = lit_secondHalf \<and> (\<forall>w \<in> set (weeks p). 2 < week w) \<and>
             p_emergencyFund p =
               (case find (\<lambda>w. year w = p_year p \<and> month w = p_month p \<and> week w = 4) ?ws of
                  Some w \<Rightarrow> emergencyFund w | None \<Rightarrow> 0))) \<and>
         (Monthly = Monthly \<longrightarrow>
            p_emergencyFund p =
              (case find (\<lambda>w. year w = p_year p \<and> month w = p_month p \<and> week w = 4) ?ws of
                 Some w \<Rightarrow> emergencyFund w | None \<Rightarrow> 0))"
    by (elim exE conjE)
  from tm [THEN conjunct2] ps have b0: "\<forall>x \<in> set ps. \<exists>p. x = PeriodEntry p \<and> weeks p \<noteq> [] \<and>
         p_emergencyFund p = emergencyFund (last (weeks p)) \<and>
         (p_emergencyFund p = sum_list (map emergencyFund (weeks p)) \<longleftrightarrow>
          sum_list (map emergencyFund (butlast (weeks p))) = 0)"
    by simp
  have a: "\<exists>p. x = PeriodEntry p \<and>
         p_emergencyFund p =
              (case find (\<lambda>w. year w = p_year p \<and> month w = p_month p \<and> week w = 4) ?ws of
                 Some w \<Rightarrow> emergencyFund w | None \<Rightarrow> 0)" if "x \<in> set ps" for x
    using a0 [rule_format, OF that] by auto
  have b: "\<exists>p. x = PeriodEntry p \<and> weeks p \<noteq> [] \<and>
         p_emergencyFund p = emergencyFund (last (weeks p)) \<and>
         (p_emergencyFund p = sum_list (map emergencyFund (weeks p)) \<longleftrightarrow>
          sum_list (map emergencyFund (butlast (weeks p))) = 0)" if "x \<in> set ps" for x
    using b0 [rule_format, OF that] .
  from fundItems_values(1,2) ps have v: "map entryEmergencyFund ps = [20]"
    "map weeksFundSum ps = [Some 30]" by (simp_all add: entriesOf_def)
  then obtain x where x: "ps = [x]" by (auto simp: map_eq_Cons_conv)
  from a [of x] b [of x] x obtain p where p: "x = PeriodEntry p"
    "p_emergencyFund p =
              (case find (\<lambda>w. year w = p_year p \<and> month w = p_month p \<and> week w = 4) ?ws of
                 Some w \<Rightarrow> emergencyFund w | None \<Rightarrow> 0)"
    "p_emergencyFund p = emergencyFund (last (weeks p))"
    "(p_emergencyFund p = sum_list (map emergencyFund (weeks p)) \<longleftrightarrow>
          sum_list (map emergencyFund (butlast (weeks p))) = 0)"
    by auto
  from v x p(1) have pv: "p_emergencyFund p = 20" "sum_list (map emergencyFund (weeks p)) = 30"
    by (simp_all add: weeksFundSum_def)
  with p(4) have nz: "sum_list (map emergencyFund (butlast (weeks p))) \<noteq> 0" by simp
  from ts [THEN conjunct1] obtain qs where qs: "aggregatedData SemiMonthly ?ws = Inr qs"
    and c0: "\<forall>x \<in> set qs. \<exists>p. x = PeriodEntry p \<and>
         (SemiMonthly = SemiMonthly \<longrightarrow>
            (subType p = lit_firstHalf \<and> (\<forall>w \<in> set (weeks p). week w \<le> 2) \<and>
             p_emergencyFund p =
               (case find (\<lambda>w. year w = p_year p \<and> month w = p_month p \<and> week w = 2) ?ws of
                  Some w \<Rightarrow> emergencyFund w | None \<Rightarrow> 0)) \<or>
            (subType p = lit_secondHalf \<and> (\<forall>w \<in> set (weeks p). 2 < week w) \<and>
             p_emergencyFund p =
               (case find (\<lambda>w. year w = p_year p \<and> month w = p_month p \<and> week w = 4) ?ws of
                  Some w \<Rightarrow> emergencyFund w | None \<Rightarrow> 0))) \<and>
         (SemiMonthly = Monthly \<longrightarrow>
            p_emergencyFund p =
              (case find (\<lambda>w. year w = p_year p \<and> month w = p_month p \<and> week w = 4) ?ws of
                 Some w \<Rightarrow> emergencyFund w | None \<Rightarrow> 0))"
    by (elim exE conjE)
  have c: "\<exists>p. x = PeriodEntry p \<and>
            ((subType p = lit_firstHalf \<and> (\<forall>w \<in> set (weeks p). week w \<le> 2) \<and>
             p_emergencyFund p =
               (case find (\<lambda>w. year w = p_year p \<and> month w = p_month p \<and> week w = 2) ?ws of
                  Some w \<Rightarrow> emergencyFund w | None \<Rightarrow> 0)) \<or>
            (subType p = lit_secondHalf \<and> (\<forall>w \<in> set (weeks p). 2 < week w) \<and>
             p_emergencyFund p =
               (case find (\<lambda>w. year w = p_year p \<and> month w = p_month p \<and> week w = 4) ?ws of
                  Some w \<Rightarrow> emergencyFund w | None \<Rightarrow> 0)))" if "x \<in> set qs" for x
    using c0 [rule_format, OF that] by auto
  from fundItems_values(3,4) qs have w: "map entryEmergencyFund qs = [0, 20]"
    "map entrySubType qs = [Some lit_firstHalf, Some lit_secondHalf]"
    by (simp_all add: entriesOf_def)
  then obtain y z where yz: "qs = [y, z]" by (auto simp: map_eq_Cons_conv)
  from c [of y] c [of z] yz w halves_differ obtain p1 p2 where q: "y = PeriodEntry p1" "z = PeriodEntry p2"
    "subType p1 = lit_firstHalf" "subType p2 = lit_secondHalf"
    "p_emergencyFund p1 =
               (case find (\<lambda>w. year w = p_year p1 \<and> month w = p_month p1 \<and> week w = 2) ?ws of
                  Some w \<Rightarrow> emergencyFund w | None \<Rightarrow> 0)"
    "p_emergencyFund p2 =
               (case find (\<lambda>w. year w = p_year p2 \<and> month w = p_month p2 \<and> week w = 4) ?ws of
                  Some w \<Rightarrow> emergencyFund w | None \<Rightarrow> 0)"
    by auto
  from w yz q(1,2) have qv: "p_emergencyFund p1 = 0" "p_emergencyFund p2 = 20" by simp_all
  have M: "\<exists>p. aggregatedData Monthly ?ws = Inr [PeriodEntry p] \<and>
      p_emergencyFund p = 20 \<and> sum_list (map emergencyFund (weeks p)) = 30 \<and>
      p_emergencyFund p = emergencyFund (last (weeks p)) \<and>
      sum_list (map emergencyFund (butlast (weeks p))) \<noteq> 0 \<and>
      p_emergencyFund p =
        (case find (\<lambda>w. year w = p_year p \<and> month w = p_month p \<and> week w = 4) ?ws of
           Some w \<Rightarrow> emergencyFund w | None \<Rightarrow> 0)"
    using ps x p(1,2,3) pv nz by (intro exI [of _ p]) simp
  have S: "\<exists>p q. aggregatedData SemiMonthly ?ws = Inr [PeriodEntry p, PeriodEntry q] \<and>
      subType p = lit_firstHalf \<and> p_emergencyFund p = 0 \<and>
      p_emergencyFund p =
        (case find (\<lambda>w. year w = p_year p \<and> month w = p_month p \<and> week w = 2) ?ws of
           Some w \<Rightarrow> emergencyFund w | None \<Rightarrow> 0) \<and>
      subType q = lit_secondHalf \<and> p_emergencyFund q = 20 \<and>
      p_emergencyFund q =
        (case find (\<lambda>w. year w = p_year q \<and> month w = p_month q \<and> week w = 4) ?ws of
           Some w \<Rightarrow> emergencyFund w | None \<Rightarrow> 0)"
    using qs yz q qv by (intro exI [of _ p1] exI [of _ p2]) simp
  from m s M S show ?thesis by (intro conjI)
qed

text \<open>
  C3 (safety bound). The guard of the program compares calendar years: it fires exactly
  when the year of the end of the computed range minus the year of its start exceeds 10.
  A range that spans more than ten years inside eleven calendar years is therefore not
  refused: with a first transaction in January 2014, read in December 2024, the range
  spans 131 months and the weekly sequence has 528 weeks.
\<close>

theorem span_guard_counterexample:
  "spanMonths (allDatesOf [mkItem 2014 0 15 100 []] [] []) dec2024 = 131 \<and>
   (10 * 12 :: int) < 131 \<and>
   weekBuckets [mkItem 2014 0 15 100 []] [] [] dec2024 \<noteq> [] \<and>
   length (weeklyFullData [mkItem 2014 0 15 100 []] [] [] dec2024) = 528"
proof -
  have a: "allDatesOf [mkItem 2014 0 15 100 []] [] [] \<noteq> []"
    and g: "\<not> guardFires (allDatesOf [mkItem 2014 0 15 100 []] [] []) dec2024"
    and s: "spanMonths (allDatesOf [mkItem 2014 0 15 100 []] [] []) dec2024 = 131"
    by (simp_all add: scenario_defs)
  have "length (weekBuckets [mkItem 2014 0 15 100 []] [] [] dec2024) = 528"
    using weekBuckets_length [OF a g] s by (simp add: spanMonths_def)
  then show ?thesis using s by (auto simp: weeklyFullData_def rollBalances_length)
qed

text \<open>
  C3 as amended. For every input the guard fires exactly when the year of the end of the
  range minus the year of its start exceeds 10, and then the weekly sequence is empty.
  When the input has a date and the guard does not fire, the sequence has four weeks for
  every month from the start of the range to its end, so it is not empty on this ground.
  A span of at most 120 months never fires the guard and a span of at least 132 months
  always does.
\<close>

theorem span_guard:
  "(guardFires (allDatesOf incomes expenses emergencyFunds) now \<longleftrightarrow>
      getFullYear (rangeEnd (allDatesOf incomes expenses emergencyFunds) now)
        - getFullYear (rangeStart (allDatesOf incomes expenses emergencyFunds)) > 10) \<and>
   (guardFires (allDatesOf incomes expenses emergencyFunds) now \<longrightarrow>
      weeklyFullData incomes expenses emergencyFunds now = []) \<and>
   (allDatesOf incomes expenses emergencyFunds \<noteq> [] \<and>
    \<not> guardFires (allDatesOf incomes expenses emergencyFunds) now \<longrightarrow>
      length (weeklyFullData incomes expenses emergencyFunds now)
        = 4 * nat (spanMonths (allDatesOf incomes expenses emergencyFunds) now + 1)) \<and>
   (spanMonths (allDatesOf incomes expenses emergencyFunds) now \<le> 120 \<longrightarrow>
      \<not> guardFires (allDatesOf incomes expenses emergencyFunds) now) \<and>
   (132 \<le> spanMonths (allDatesOf incomes expenses emergencyFunds) now \<longrightarrow>
      guardFires (allDatesOf incomes expenses emergencyFunds) now)"
proof -
  let ?ds = "allDatesOf incomes expenses emergencyFunds"
  have m: "getMonth (rangeStart ?ds) < 12" "getMonth (rangeEnd ?ds now) < 12"
    by (simp_all add: rangeStart_def rangeEnd_def Let_def)
  have "weeklyFullData incomes expenses emergencyFunds now = []" if "guardFires ?ds now"
    using that by (simp add: weeklyFullData_def weekBuckets_cases)
  moreover have "length (weeklyFullData incomes expenses emergencyFunds now)
      = 4 * nat (spanMonths ?ds now + 1)" if "?ds \<noteq> []" "\<not> guardFires ?ds now"
    using weekBuckets_length [OF that]
    by (simp add: weeklyFullData_def rollBalances_length spanMonths_def)
  moreover have "\<not> guardFires ?ds now" if "spanMonths ?ds now \<le> 120"
    using guard_span(1) [OF m] that by (simp add: guardFires_def spanMonths_def)
  moreover have "guardFires ?ds now" if "132 \<le> spanMonths ?ds now"
    using guard_span(2) [OF m] that by (simp add: guardFires_def spanMonths_def)
  ultimately show ?thesis by (simp add: guardFires_def)
qed

theorem span_guard_witness:
  "guardFires (allDatesOf [mkItem 2013 11 15 100 []] [] []) jan2024 \<and>
   spanMonths (allDatesOf [mkItem 2013 11 15 100 []] [] []) jan2024 = 121 \<and>
   weeklyFullData [mkItem 2013 11 15 100 []] [] [] jan2024 = [] \<and>
   allDatesOf [mkItem 2024 2 5 5000 []] [mkItem 2024 2 10 2000 []] [] \<noteq> [] \<and>
   spanMonths (allDatesOf [mkItem 2024 2 5 5000 []] [mkItem 2024 2 10 2000 []] []) april20 = 1 \<and>
   \<not> guardFires (allDatesOf [mkItem 2024 2 5 5000 []] [mkItem 2024 2 10 2000 []] []) april20 \<and>
   length (weeklyFullData [mkItem 2024 2 5 5000 []] [mkItem 2024 2 10 2000 []] [] april20) = 8"
proof -
  have g: "guardFires (allDatesOf [mkItem 2013 11 15 100 []] [] []) jan2024"
    and s: "spanMonths (allDatesOf [mkItem 2013 11 15 100 []] [] []) jan2024 = 121"
    by (simp_all add: scenario_defs)
  have a: "allDatesOf [mkItem 2024 2 5 5000 []] [mkItem 2024 2 10 2000 []] [] \<noteq> []"
    and s': "spanMonths (allDatesOf [mkItem 2024 2 5 5000 []] [mkItem 2024 2 10 2000 []] []) april20 = 1"
    by (simp_all add: scenario_defs)
  from span_guard [of "[mkItem 2013 11 15 100 []]" "[]" "[]" jan2024] g
  have e: "weeklyFullData [mkItem 2013 11 15 100 []] [] [] jan2024 = []" by blast
  note sg = span_guard [of "[mkItem 2024 2 5 5000 []]" "[mkItem 2024 2 10 2000 []]" "[]" april20]
  have "spanMonths (allDatesOf [mkItem 2024 2 5 5000 []] [mkItem 2024 2 10 2000 []] []) april20 \<le> 120"
    using s' by simp
  with sg have ng: "\<not> guardFires (allDatesOf [mkItem 2024 2 5 5000 []] [mkItem 2024 2 10 2000 []] []) april20"
    by blast
  with sg a have "length (weeklyFullData [mkItem 2024 2 5 5000 []] [mkItem 2024 2 10 2000 []] [] april20)
      = 4 * nat (spanMonths (allDatesOf [mkItem 2024 2 5 5000 []] [mkItem 2024 2 10 2000 []] []) april20 + 1)"
    by blast
  then have l: "length (weeklyFullData [mkItem 2024 2 5 5000 []] [mkItem 2024 2 10 2000 []] [] april20) = 8"
    unfolding s' by simp
  from g s e a s' ng l show ?thesis by blast
qed

text \<open>
  C4 (bucket completeness). For an input with at least one date on which the guard does
  not fire, and for every year \<open>y\<close> and month \<open>m\<close> (1 to 12) of the computed range, the buckets
  of that month in the output are exactly four, with the weeks 1, 2, 3, 4 in this order;
  the same holds for the weekly sequence after the balance pass. When no transaction of the
  three series is dated in that month, the income, the expense and the emergency fund of
  these buckets are zero.
\<close>

theorem bucket_completeness:
  assumes "allDatesOf incomes expenses emergencyFunds \<noteq> []"
    and "\<not> guardFires (allDatesOf incomes expenses emergencyFunds) now"
    and "monthOrd (rangeStart (allDatesOf incomes expenses emergencyFunds)) \<le> 12 * y + int m - 1"
    and "12 * y + int m - 1 \<le> monthOrd (rangeEnd (allDatesOf incomes expenses emergencyFunds) now)"
    and "1 \<le> m" "m \<le> 12"
  shows "map week (filter (\<lambda>b. year b = y \<and> month b = m)
            (weekBuckets incomes expenses emergencyFunds now)) = [1, 2, 3, 4] \<and>
         map week (filter (\<lambda>b. year b = y \<and> month b = m)
            (weeklyFullData incomes expenses emergencyFunds now)) = [1, 2, 3, 4] \<and>
         (validItems (incomes @ expenses @ emergencyFunds) \<and>
          (\<forall>it \<in> set (incomes @ expenses @ emergencyFunds).
             \<not> (getFullYear (date it) = y \<and> getMonth (date it) + 1 = m)) \<longrightarrow>
          (\<forall>b \<in> set (weekBuckets incomes expenses emergencyFunds now).
             year b = y \<and> month b = m \<longrightarrow>
               income b = 0 \<and> expense b = 0 \<and> emergencyFund b = 0))"
proof (intro conjI impI ballI)
  have wk: "map week bs = map (\<lambda>i. snd (snd i)) (map ident bs)" for bs :: "'a weekBucket_scheme list"
    by (simp add: ident_def)
  have i: "map ident (filter (\<lambda>b. year b = y \<and> month b = m)
      (weekBuckets incomes expenses emergencyFunds now)) = map (\<lambda>w. (y, m, w)) [1, 2, 3, 4]"
    by (rule weekBuckets_month [OF assms])
  show "map week (filter (\<lambda>b. year b = y \<and> month b = m)
      (weekBuckets incomes expenses emergencyFunds now)) = [1, 2, 3, 4]"
    unfolding wk i by simp
  have "map ident (filter (\<lambda>b. year b = y \<and> month b = m)
      (weeklyFullData incomes expenses emergencyFunds now)) = map (\<lambda>w. (y, m, w)) [1, 2, 3, 4]"
    using rollBalances_filter_idents [of "\<lambda>(y', m', w). y' = y \<and> m' = m" INITIAL_BALANCE
        "weekBuckets incomes expenses emergencyFunds now"] i
    by (simp add: weeklyFullData_def ident_def)
  then show "map week (filter (\<lambda>b. year b = y \<and> month b = m)
      (weeklyFullData incomes expenses emergencyFunds now)) = [1, 2, 3, 4]"
    unfolding wk by simp
next
  fix b
  assume v: "validItems (incomes @ expenses @ emergencyFunds) \<and>
      (\<forall>it \<in> set (incomes @ expenses @ emergencyFunds).
         \<not> (getFullYear (date it) = y \<and> getMonth (date it) + 1 = m))"
    and b: "b \<in> set (weekBuckets incomes expenses emergencyFunds now)"
    and ym: "year b = y \<and> month b = m"
  from v have vs: "validItems incomes" "validItems expenses" "validItems emergencyFunds"
    by (simp_all add: validItems_def)
  from v ym have off: "\<not> onBucket it b" if "it \<in> set (incomes @ expenses @ emergencyFunds)" for it
    using that by (auto simp: onBucket_def)
  have "filter (\<lambda>it. \<not> excluded Income it \<and> onBucket it b) incomes = []"
    "filter (\<lambda>it. onBucket it b) expenses = []" "filter (\<lambda>it. onBucket it b) emergencyFunds = []"
    using off by (auto simp: filter_empty_conv)
  with weekBuckets_amounts [OF b] vs
  show "income b = 0" "expense b = 0" "emergencyFund b = 0" by simp_all
qed

theorem bucket_completeness_witness:
  "allDatesOf [mkItem 2024 2 5 5000 []] [mkItem 2024 2 10 2000 []] [] \<noteq> [] \<and>
   \<not> guardFires (allDatesOf [mkItem 2024 2 5 5000 []] [mkItem 2024 2 10 2000 []] []) april20 \<and>
   monthOrd (rangeStart (allDatesOf [mkItem 2024 2 5 5000 []] [mkItem 2024 2 10 2000 []] []))
     \<le> 12 * 2024 + int 4 - 1 \<and>
   12 * 2024 + int 4 - 1
     \<le> monthOrd (rangeEnd (allDatesOf [mkItem 2024 2 5 5000 []] [mkItem 2024 2 10 2000 []] []) april20) \<and>
   map week (filter (\<lambda>b. year b = 2024 \<and> month b = 4)
     (weeklyFullData [mkItem 2024 2 5 5000 []] [mkItem 2024 2 10 2000 []] [] april20)) = [1, 2, 3, 4] \<and>
   validItems ([mkItem 2024 2 5 5000 []] @ [mkItem 2024 2 10 2000 []] @ []) \<and>
   list_all (\<lambda>b. income b = 0 \<and> expense b = 0 \<and> emergencyFund b = 0)
     (filter (\<lambda>b. year b = 2024 \<and> month b = 4)
       (weekBuckets [mkItem 2024 2 5 5000 []] [mkItem 2024 2 10 2000 []] [] april20))"
proof -
  have h: "allDatesOf [mkItem 2024 2 5 5000 []] [mkItem 2024 2 10 2000 []] [] \<noteq> []"
    "\<not> guardFires (allDatesOf [mkItem 2024 2 5 5000 []] [mkItem 2024 2 10 2000 []] []) april20"
    "monthOrd (rangeStart (allDatesOf [mkItem 2024 2 5 5000 []] [mkItem 2024 2 10 2000 []] []))
       \<le> 12 * 2024 + int 4 - 1"
    "12 * 2024 + int 4 - 1
       \<le> monthOrd (rangeEnd (allDatesOf [mkItem 2024 2 5 5000 []] [mkItem 2024 2 10 2000 []] []) april20)"
    by (simp_all add: scenario_defs)
  have m: "(1::nat) \<le> 4" "(4::nat) \<le> 12" by simp_all
  have v: "validItems ([mkItem 2024 2 5 5000 []] @ [mkItem 2024 2 10 2000 []] @ [])"
    by (simp add: validItems_def mkItem_def)
  have n: "\<forall>it \<in> set ([mkItem 2024 2 5 5000 []] @ [mkItem 2024 2 10 2000 []] @ []).
      \<not> (getFullYear (date it) = 2024 \<and> getMonth (date it) + 1 = 4)"
    by (simp add: mkItem_def)
  note bc = bucket_completeness [OF h m]
  from bc v n have "list_all (\<lambda>b. income b = 0 \<and> expense b = 0 \<and> emergencyFund b = 0)
     (filter (\<lambda>b. year b = 2024 \<and> month b = 4)
       (weekBuckets [mkItem 2024 2 5 5000 []] [mkItem 2024 2 10 2000 []] [] april20))"
    unfolding list_all_iff by simp
  with bc h v show ?thesis by blast
qed

text \<open>
  C5 (weekly view). The weekly view returns the weeks themselves, and a week has no field
  \<open>net\<close>: on the weeks of the scenario every element of the result reads \<open>undefined\<close> for
  \<open>net\<close>, while income - expense is 5000, -2000, 0 and 0.
\<close>

theorem weekly_net_counterexample:
  "map entryNet (entriesOf (aggregatedData Weekly marchWeeks)) = [None, None, None, None] \<and>
   map (\<lambda>x. entryIncome x - entryExpense x) (entriesOf (aggregatedData Weekly marchWeeks))
     = [5000, - 2000, 0, 0]"
  by (simp add: aggregatedData_def entriesOf_def marchWeeks_eq marchBuckets_def newBucket_def)

text \<open>
  C5 as amended. For the weekly view the result is the weekly sequence itself, element by
  element: same length and order, and the name, year, month, income, expense, emergency
  fund, opening and closing of every element are those of the week. No element carries a
  field \<open>net\<close>; \<open>net\<close> = income - expense is carried by the periods of the semi-monthly and
  monthly views only.
\<close>

theorem weekly_passthrough:
  "aggregatedData Weekly ws = Inr (map WeekEntry ws) \<and>
   length (entriesOf (aggregatedData Weekly ws)) = length ws \<and>
   map entryName (entriesOf (aggregatedData Weekly ws)) = map name ws \<and>
   map entryYear (entriesOf (aggregatedData Weekly ws)) = map year ws \<and>
   map entryMonth (entriesOf (aggregatedData Weekly ws)) = map month ws \<and>
   map entryIncome (entriesOf (aggregatedData Weekly ws)) = map income ws \<and>
   map entryExpense (entriesOf (aggregatedData Weekly ws)) = map expense ws \<and>
   map entryEmergencyFund (entriesOf (aggregatedData Weekly ws)) = map emergencyFund ws \<and>
   map entryOpening (entriesOf (aggregatedData Weekly ws)) = map opening ws \<and>
   map entryClosing (entriesOf (aggregatedData Weekly ws)) = map closing ws \<and>
   map entryNet (entriesOf (aggregatedData Weekly ws)) = map (\<lambda>w. None) ws \<and>
   (vt \<noteq> Weekly \<longrightarrow>
      (\<exists>ps. aggregatedData vt ws = Inr ps \<and>
         (\<forall>x \<in> set ps. entryNet x = Some (entryIncome x - entryExpense x))))"
proof -
  have "\<exists>ps. aggregatedData vt ws = Inr ps \<and>
         (\<forall>x \<in> set ps. entryNet x = Some (entryIncome x - entryExpense x))" if vt: "vt \<noteq> Weekly"
  proof -
    obtain ps where ps: "aggregatedData vt ws = Inr ps"
      using vt by (simp add: aggregatedData_periods)
    have "entryNet x = Some (entryIncome x - entryExpense x)" if "x \<in> set ps" for x
    proof -
      from period_facts [OF vt ps that] obtain p where "x = PeriodEntry p"
        "net p = p_income p - p_expense p" by blast
      then show ?thesis by simp
    qed
    with ps show ?thesis by blast
  qed
  then show ?thesis by (simp add: aggregatedData_def entriesOf_def comp_def)
qed

theorem weekly_passthrough_witness:
  "Monthly \<noteq> Weekly \<and>
   (\<exists>x. aggregatedData Monthly marchWeeks = Inr [x] \<and>
      entryNet x = Some (entryIncome x - entryExpense x) \<and> entryNet x = Some 3000) \<and>
   map entryNet (entriesOf (aggregatedData Weekly marchWeeks)) = [None, None, None, None] \<and>
   map entryEmergencyFund (entriesOf (aggregatedData Weekly fundWeeks)) = [10, 0, 0, 20]"
proof -
  have m: "Monthly \<noteq> Weekly" by simp
  note t = weekly_passthrough [of marchWeeks Monthly]
  from t m obtain ps where ps: "aggregatedData Monthly marchWeeks = Inr ps"
    and n: "\<forall>x \<in> set ps. entryNet x = Some (entryIncome x - entryExpense x)" by blast
  from march_monthly(5) ps have v: "map entryNet ps = [Some 3000]" by (simp add: entriesOf_def)
  then obtain x where x: "ps = [x]" by (auto simp: map_eq_Cons_conv)
  with n v have "entryNet x = Some (entryIncome x - entryExpense x)" "entryNet x = Some 3000"
    by simp_all
  with ps x have a: "\<exists>x. aggregatedData Monthly marchWeeks = Inr [x] \<and>
      entryNet x = Some (entryIncome x - entryExpense x) \<and> entryNet x = Some 3000" by blast
  from t have "map entryNet (entriesOf (aggregatedData Weekly marchWeeks)) = map (\<lambda>w. None) marchWeeks"
    by blast
  then have b: "map entryNet (entriesOf (aggregatedData Weekly marchWeeks)) = [None, None, None, None]"
    by (simp add: marchWeeks_eq marchBuckets_def)
  from weekly_passthrough [of fundWeeks Monthly]
  have "map entryEmergencyFund (entriesOf (aggregatedData Weekly fundWeeks)) = map emergencyFund fundWeeks"
    by blast
  then have c: "map entryEmergencyFund (entriesOf (aggregatedData Weekly fundWeeks)) = [10, 0, 0, 20]"
    by (simp add: fundWeeks_eq newBucket_def)
  from m a b c show ?thesis by (intro conjI)
qed



text \<open>
  C7 (aggregation consistency). For every transaction input and current date the monthly
  aggregation of the weekly sequence returns a result, and every period of the result has
  four constituent weeks: the weeks 1, 2, 3, 4 of its month in the weekly sequence, in this
  order. Its income is the sum of their incomes, its expense the sum of their expenses,
  its opening the opening of the first of them, its closing the closing of week 4, and
  its net is income - expense.
\<close>

theorem monthly_aggregation:
  "\<exists>ps. aggregatedData Monthly (weeklyFullData incomes expenses emergencyFunds now) = Inr ps \<and>
     (\<forall>x \<in> set ps. \<exists>p w1 w2 w3 w4. x = PeriodEntry p \<and> weeks p = [w1, w2, w3, w4] \<and>
        filter (\<lambda>w. year w = p_year p \<and> month w = p_month p)
          (weeklyFullData incomes expenses emergencyFunds now) = [w1, w2, w3, w4] \<and>
        week w1 = 1 \<and> week w2 = 2 \<and> week w3 = 3 \<and> week w4 = 4 \<and>
        p_income p = income w1 + income w2 + income w3 + income w4 \<and>
        p_expense p = expense w1 + expense w2 + expense w3 + expense w4 \<and>
        p_opening p = opening w1 \<and> p_closing p = closing w4 \<and>
        net p = p_income p - p_expense p)"
proof -
  let ?ws = "weeklyFullData incomes expenses emergencyFunds now"
  obtain ps where ps: "aggregatedData Monthly ?ws = Inr ps"
    by (simp add: aggregatedData_periods)
  have "\<exists>p w1 w2 w3 w4. x = PeriodEntry p \<and> weeks p = [w1, w2, w3, w4] \<and>
        filter (\<lambda>w. year w = p_year p \<and> month w = p_month p) ?ws = [w1, w2, w3, w4] \<and>
        week w1 = 1 \<and> week w2 = 2 \<and> week w3 = 3 \<and> week w4 = 4 \<and>
        p_income p = income w1 + income w2 + income w3 + income w4 \<and>
        p_expense p = expense w1 + expense w2 + expense w3 + expense w4 \<and>
        p_opening p = opening w1 \<and> p_closing p = closing w4 \<and>
        net p = p_income p - p_expense p" if "x \<in> set ps" for x
  proof -
    have m: "Monthly \<noteq> Weekly" by simp
    from pipeline_period [OF m ps that] obtain p w1 w2 w3 w4 where x: "x = PeriodEntry p"
      and f: "filter (\<lambda>w. year w = p_year p \<and> month w = p_month p) ?ws = [w1, w2, w3, w4]"
      and w: "week w1 = 1" "week w2 = 2" "week w3 = 3" "week w4 = 4"
      and wp: "weeks p = [w1, w2, w3, w4]"
      and s: "p_income p = sum_list (map income (weeks p))"
        "p_expense p = sum_list (map expense (weeks p))" "p_opening p = opening (hd (weeks p))"
        "p_closing p = closing (last (weeks p))" "net p = p_income p - p_expense p"
      by auto
    from s have "p_income p = income w1 + income w2 + income w3 + income w4"
      "p_expense p = expense w1 + expense w2 + expense w3 + expense w4"
      "p_opening p = opening w1" "p_closing p = closing w4"
      unfolding wp by simp_all
    with x f w wp s(5) show ?thesis by blast
  qed
  with ps show ?thesis by blast
qed

theorem monthly_aggregation_witness:
  "\<exists>p w1 w2 w3 w4.
     aggregatedData Monthly
       (weeklyFullData [mkItem 2024 2 5 5000 []] [mkItem 2024 2 10 2000 []] [] march20)
       = Inr [PeriodEntry p] \<and>
     weeks p = [w1, w2, w3, w4] \<and> week w4 = 4 \<and>
     p_income p = income w1 + income w2 + income w3 + income w4 \<and> p_income p = 5000 \<and>
     p_opening p = opening w1 \<and> p_closing p = closing w4 \<and> p_closing p = 1019000 \<and>
     net p = p_income p - p_expense p"
proof -
  let ?ws = "weeklyFullData [mkItem 2024 2 5 5000 []] [mkItem 2024 2 10 2000 []] [] march20"
  from monthly_aggregation [of "[mkItem 2024 2 5 5000 []]" "[mkItem 2024 2 10 2000 []]" "[]" march20]
  obtain ps where ps: "aggregatedData Monthly ?ws = Inr ps"
    and all: "\<forall>x \<in> set ps. \<exists>p w1 w2 w3 w4. x = PeriodEntry p \<and> weeks p = [w1, w2, w3, w4] \<and>
        filter (\<lambda>w. year w = p_year p \<and> month w = p_month p) ?ws = [w1, w2, w3, w4] \<and>
        week w1 = 1 \<and> week w2 = 2 \<and> week w3 = 3 \<and> week w4 = 4 \<and>
        p_income p = income w1 + income w2 + income w3 + income w4 \<and>
        p_expense p = expense w1 + expense w2 + expense w3 + expense w4 \<and>
        p_opening p = opening w1 \<and> p_closing p = closing w4 \<and>
        net p = p_income p - p_expense p"
    by blast
  from march_full_monthly ps have v: "map entryIncome ps = [5000]" "map entryClosing ps = [1019000]"
    by (simp_all add: entriesOf_def)
  then obtain x where x: "ps = [x]" by (auto simp: map_eq_Cons_conv)
  with all obtain p w1 w2 w3 w4 where p: "x = PeriodEntry p" "weeks p = [w1, w2, w3, w4]"
    "week w4 = 4" "p_income p = income w1 + income w2 + income w3 + income w4"
    "p_opening p = opening w1" "p_closing p = closing w4" "net p = p_income p - p_expense p"
    by auto
  from v x p(1) have "p_income p = 5000" "p_closing p = 1019000" by simp_all
  with ps x p show ?thesis by blast
qed

text \<open>
  C8 (display window). The window is computed only while data is loaded: with the flag
  unset the window is empty, also when the anchor is the name of a period of a non-empty
  sequence and when no period has the anchor as its name.
\<close>

theorem window_gate_counterexample:
  "entryName (marchEntries ! 1) = weekName 2024 3 2 \<and>
   displayBlocks False marchEntries (weekName 2024 3 2) = [] \<and>
   displayBlocks False marchEntries [] = [] \<and>
   length marchEntries = 4"
proof -
  have "entryName (marchEntries ! 1) = map entryName marchEntries ! 1"
    by (simp add: marchEntries_length)
  then have "entryName (marchEntries ! 1) = weekName 2024 3 2"
    by (simp add: marchEntries_names)
  then show ?thesis by (simp add: displayBlocks_def marchEntries_length)
qed

text \<open>
  C8 as amended. The window never has more than four elements, and it is empty while no
  data is loaded. While data is loaded: when a period has the anchor as its name, the
  lookup gives the first index of such a period, the window is the slice of at most four
  elements that starts at this index (fewer only when fewer remain), and the name of its
  first element is the anchor; when no period has this name, the window is the last four
  elements, or the whole sequence when it is shorter.
\<close>

theorem display_window:
  "length (displayBlocks loaded aggregated selected) \<le> 4 \<and>
   (\<not> loaded \<longrightarrow> displayBlocks loaded aggregated selected = []) \<and>
   (loaded \<and> (\<exists>d \<in> set aggregated. entryName d = selected) \<longrightarrow>
      0 \<le> anchorIndex aggregated selected \<and>
      nat (anchorIndex aggregated selected) < length aggregated \<and>
      entryName (aggregated ! nat (anchorIndex aggregated selected)) = selected \<and>
      (\<forall>k < nat (anchorIndex aggregated selected). entryName (aggregated ! k) \<noteq> selected) \<and>
      displayBlocks loaded aggregated selected
        = take 4 (drop (nat (anchorIndex aggregated selected)) aggregated) \<and>
      length (displayBlocks loaded aggregated selected)
        = min 4 (length aggregated - nat (anchorIndex aggregated selected)) \<and>
      entryName (displayBlocks loaded aggregated selected ! 0) = selected) \<and>
   (loaded \<and> \<not> (\<exists>d \<in> set aggregated. entryName d = selected) \<longrightarrow>
      displayBlocks loaded aggregated selected = drop (length aggregated - 4) aggregated \<and>
      length (displayBlocks loaded aggregated selected) = min 4 (length aggregated))"
proof (intro conjI impI)
  let ?P = "\<lambda>d. entryName d = selected"
  have "length aggregated - (length aggregated - 4) \<le> 4" by arith
  then show "length (displayBlocks loaded aggregated selected) \<le> 4"
    by (simp add: displayBlocks_def Let_def sliceLast4_def slice4_def)
  show "displayBlocks loaded aggregated selected = []" if "\<not> loaded"
    using that by (simp add: displayBlocks_def)
  {
    assume a: "loaded \<and> (\<exists>d \<in> set aggregated. entryName d = selected)"
    then have ex: "\<exists>d \<in> set aggregated. ?P d" by simp
    note fi = findIndex_present [OF ex]
    show i0: "0 \<le> anchorIndex aggregated selected" unfolding anchorIndex_def by (rule fi(1))
    show i1: "nat (anchorIndex aggregated selected) < length aggregated"
      unfolding anchorIndex_def by (rule fi(2))
    show i2: "entryName (aggregated ! nat (anchorIndex aggregated selected)) = selected"
      unfolding anchorIndex_def by (rule fi(3))
    show "\<forall>k < nat (anchorIndex aggregated selected). entryName (aggregated ! k) \<noteq> selected"
      unfolding anchorIndex_def by (rule fi(4))
    from fi(1) have "findIndex ?P aggregated \<noteq> - 1" by simp
    then show d: "displayBlocks loaded aggregated selected
        = take 4 (drop (nat (anchorIndex aggregated selected)) aggregated)"
      using a by (simp add: displayBlocks_def Let_def slice4_def anchorIndex_def)
    show "length (displayBlocks loaded aggregated selected)
        = min 4 (length aggregated - nat (anchorIndex aggregated selected))"
      unfolding d by (simp add: min.commute)
    show "entryName (displayBlocks loaded aggregated selected ! 0) = selected"
      unfolding d using i1 i2 by simp
  }
  {
    assume a: "loaded \<and> \<not> (\<exists>d \<in> set aggregated. entryName d = selected)"
    then have "findIndex ?P aggregated = - 1" by (simp add: findIndex_absent)
    with a show d: "displayBlocks loaded aggregated selected = drop (length aggregated - 4) aggregated"
      by (simp add: displayBlocks_def sliceLast4_def)
    have "length aggregated - (length aggregated - 4) = min 4 (length aggregated)" by arith
    then show "length (displayBlocks loaded aggregated selected) = min 4 (length aggregated)"
      unfolding d by simp
  }
qed

theorem display_window_witness:
  "list_ex (\<lambda>d. entryName d = weekName 2024 3 2) marchEntries \<and>
   \<not> list_ex (\<lambda>d. entryName d = []) marchEntries \<and>
   length (displayBlocks True marchEntries (weekName 2024 3 2)) \<le> 4 \<and>
   entryName (displayBlocks True marchEntries (weekName 2024 3 2) ! 0) = weekName 2024 3 2 \<and>
   displayBlocks True marchEntries (weekName 2024 3 2)
     = take 4 (drop (nat (anchorIndex marchEntries (weekName 2024 3 2))) marchEntries) \<and>
   displayBlocks True marchEntries [] = marchEntries \<and>
   displayBlocks False marchEntries [] = []"
proof -
  have s: "set (map entryName marchEntries)
      = {weekName 2024 3 1, weekName 2024 3 2, weekName 2024 3 3, weekName 2024 3 4}"
    by (simp add: marchEntries_names)
  have "weekName 2024 3 2 \<in> set (map entryName marchEntries)" unfolding s by simp
  then have ex: "\<exists>d \<in> set marchEntries. entryName d = weekName 2024 3 2"
    by (auto simp: image_iff)
  have "[] \<notin> set (map entryName marchEntries)" unfolding s using weekName_not_Nil by (simp add: eq_commute [of "[]"])
  then have nex: "\<not> (\<exists>d \<in> set marchEntries. entryName d = [])"
    by (metis image_eqI list.set_map)
  note t = display_window [of True marchEntries "weekName 2024 3 2"]
  note u = display_window [of True marchEntries "[]"]
  note v = display_window [of False marchEntries "[]"]
  from t have a: "length (displayBlocks True marchEntries (weekName 2024 3 2)) \<le> 4" by blast
  from t ex have b: "entryName (displayBlocks True marchEntries (weekName 2024 3 2) ! 0) = weekName 2024 3 2"
    "displayBlocks True marchEntries (weekName 2024 3 2)
     = take 4 (drop (nat (anchorIndex marchEntries (weekName 2024 3 2))) marchEntries)"
    by blast+
  from u nex have "displayBlocks True marchEntries [] = drop (length marchEntries - 4) marchEntries"
    by blast
  then have c: "displayBlocks True marchEntries [] = marchEntries"
    by (simp add: marchEntries_length)
  from v have d: "displayBlocks False marchEntries [] = []" by blast
  from ex nex a b c d show ?thesis by (simp add: list_ex_iff)
qed

text \<open>
  C9 (default anchor). For a non-empty sequence the effect sets the anchor to the name of
  the period of the current date under the active view whenever an element of the sequence
  has exactly this name, and to the name of the last element otherwise; in both cases the
  new anchor is the name of an element of the sequence. The name of the period of the
  current date is the name that the pipeline gives to the week with the year, the month
  and the week of the month of the date (weekly view), and to the month or half month with
  the year, the month and the half of the date (other views); no other week, month or half
  month has this name.
\<close>

theorem default_anchor:
  "(aggregated \<noteq> [] \<longrightarrow>
      (list_ex (\<lambda>d. entryName d = getPeriodNameFromDate now vt) aggregated \<longrightarrow>
         defaultAnchor aggregated vt now selected = getPeriodNameFromDate now vt) \<and>
      (\<not> list_ex (\<lambda>d. entryName d = getPeriodNameFromDate now vt) aggregated \<longrightarrow>
         defaultAnchor aggregated vt now selected = entryName (last aggregated)) \<and>
      list_ex (\<lambda>d. entryName d = defaultAnchor aggregated vt now selected) aggregated) \<and>
   (weekName y m k = getPeriodNameFromDate now Weekly \<longleftrightarrow>
      y = getFullYear now \<and> m = getMonth now + 1 \<and> k = getWeekIndex (getDate now)) \<and>
   (vt \<noteq> Weekly \<longrightarrow>
      (groupName vt w = getPeriodNameFromDate now vt \<longleftrightarrow>
         year w = getFullYear now \<and> month w = getMonth now + 1 \<and>
         (vt = SemiMonthly \<longrightarrow> (week w \<le> 2 \<longleftrightarrow> getWeekIndex (getDate now) \<le> 2))))"
proof (intro conjI impI)
  let ?t = "getPeriodNameFromDate now vt"
  show "defaultAnchor aggregated vt now selected = ?t"
    if "aggregated \<noteq> []" "list_ex (\<lambda>d. entryName d = ?t) aggregated"
    using that by (simp add: defaultAnchor_def Let_def)
  show "defaultAnchor aggregated vt now selected = entryName (last aggregated)"
    if "aggregated \<noteq> []" "\<not> list_ex (\<lambda>d. entryName d = ?t) aggregated"
    using that by (simp add: defaultAnchor_def Let_def)
  show "list_ex (\<lambda>d. entryName d = defaultAnchor aggregated vt now selected) aggregated"
    if ne: "aggregated \<noteq> []"
  proof (cases "list_ex (\<lambda>d. entryName d = ?t) aggregated")
    case True
    with ne show ?thesis by (simp add: defaultAnchor_def Let_def)
  next
    case False
    from ne have "last aggregated \<in> set aggregated" by simp
    then have "list_ex (\<lambda>d. entryName d = entryName (last aggregated)) aggregated"
      unfolding list_ex_iff by blast
    with ne False show ?thesis by (simp add: defaultAnchor_def Let_def)
  qed
  show "weekName y m k = getPeriodNameFromDate now Weekly \<longleftrightarrow>
      y = getFullYear now \<and> m = getMonth now + 1 \<and> k = getWeekIndex (getDate now)"
    unfolding todayName_week by (rule weekName_inj)
  show "groupName vt w = ?t \<longleftrightarrow>
         year w = getFullYear now \<and> month w = getMonth now + 1 \<and>
         (vt = SemiMonthly \<longrightarrow> (week w \<le> 2 \<longleftrightarrow> getWeekIndex (getDate now) \<le> 2))"
    if vt: "vt \<noteq> Weekly"
  proof -
    define w' where "w' = w\<lparr>year := getFullYear now, month := getMonth now + 1,
      week := getWeekIndex (getDate now)\<rparr>"
    have f: "year w' = getFullYear now" "month w' = getMonth now + 1"
      "week w' = getWeekIndex (getDate now)" by (simp_all add: w'_def)
    have t: "?t = groupName vt w'"
      by (rule todayName_group [OF vt]) (simp_all add: f)
    have "subOf vt w = subOf vt w' \<longleftrightarrow>
        (vt = SemiMonthly \<longrightarrow> (week w \<le> 2 \<longleftrightarrow> week w' \<le> 2))"
      using halves_differ by (auto simp: subOf_def)
    then show ?thesis unfolding t groupName_inj f by simp
  qed
qed

theorem default_anchor_witness:
  "marchEntries \<noteq> [] \<and>
   list_ex (\<lambda>d. entryName d = getPeriodNameFromDate march20 Weekly) marchEntries \<and>
   defaultAnchor marchEntries Weekly march20 [] = weekName 2024 3 3 \<and>
   \<not> list_ex (\<lambda>d. entryName d = getPeriodNameFromDate april20 Weekly) marchEntries \<and>
   defaultAnchor marchEntries Weekly april20 [] = weekName 2024 3 4 \<and>
   Monthly \<noteq> Weekly \<and>
   groupName Monthly (marchWeeks ! 0) = getPeriodNameFromDate march20 Monthly"
proof -
  have ne: "marchEntries \<noteq> []" using marchEntries_length by auto
  have s: "set (map entryName marchEntries)
      = {weekName 2024 3 1, weekName 2024 3 2, weekName 2024 3 3, weekName 2024 3 4}"
    by (simp add: marchEntries_names)
  have t1: "getPeriodNameFromDate march20 Weekly = weekName 2024 3 3"
    and t2: "getPeriodNameFromDate april20 Weekly = weekName 2024 4 3"
    by (simp_all add: todayName_week march20_def april20_def getWeekIndex_def)
  have "weekName 2024 3 3 \<in> set (map entryName marchEntries)" unfolding s by simp
  then have ex: "list_ex (\<lambda>d. entryName d = getPeriodNameFromDate march20 Weekly) marchEntries"
    unfolding t1 list_ex_iff by (auto simp: image_iff)
  have "weekName 2024 4 3 \<notin> set (map entryName marchEntries)"
    unfolding s by (simp add: weekName_inj)
  then have nex: "\<not> list_ex (\<lambda>d. entryName d = getPeriodNameFromDate april20 Weekly) marchEntries"
    unfolding t2 list_ex_iff by (metis image_eqI list.set_map)
  have l: "entryName (last marchEntries) = weekName 2024 3 4"
    using arg_cong [OF marchEntries_names, of last] ne by (simp add: last_map)
  from default_anchor [of marchEntries march20 Weekly "[]"] ne ex
  have a: "defaultAnchor marchEntries Weekly march20 [] = weekName 2024 3 3"
    unfolding t1 by blast
  from default_anchor [of marchEntries april20 Weekly "[]"] ne nex
  have b: "defaultAnchor marchEntries Weekly april20 [] = weekName 2024 3 4"
    unfolding l by blast
  have m: "Monthly \<noteq> Weekly" by simp
  have w0: "year (marchWeeks ! 0) = getFullYear march20"
    "month (marchWeeks ! 0) = getMonth march20 + 1"
    by (simp_all add: marchWeeks_eq marchBuckets_def newBucket_def march20_def)
  from default_anchor [of "[]" march20 Monthly "[]" 0 0 0 "marchWeeks ! 0"] m w0
  have c: "groupName Monthly (marchWeeks ! 0) = getPeriodNameFromDate march20 Monthly"
    by simp
  from ne ex a nex b m c show ?thesis unfolding t1 t2 by (intro conjI)
qed

text \<open>
  C10 (navigation from an anchor that no period has). A backward step leaves the anchor as
  it is, so the lookup of the anchor still gives -1 after the step, which is not an index
  of the sequence: in the weekly view of the scenario, dragging right by 200 from an anchor
  that no week has changes only the start of the drag.
\<close>

theorem backward_index_counterexample:
  "marchEntries \<noteq> [] \<and> anchorIndex marchEntries (selectedFilter draggingState) = - 1 \<and>
   handleMouseMove marchEntries 700 draggingState = Inr (draggingState\<lparr>dragStartX := Some 700\<rparr>) \<and>
   anchorIndex marchEntries (selectedFilter (draggingState\<lparr>dragStartX := Some 700\<rparr>)) = - 1 \<and>
   \<not> (0 \<le> (- 1 :: int))"
proof -
  have ne: "marchEntries \<noteq> []" using marchEntries_length by auto
  have a: "anchorIndex marchEntries (selectedFilter draggingState) = - 1"
    by (simp add: draggingState_def marchEntries_absent)
  have "findIndex (\<lambda>d. entryName d = []) marchEntries = - 1"
    using marchEntries_absent by (simp add: anchorIndex_def)
  then have "handleMouseMove marchEntries 700 draggingState
      = Inr (draggingState\<lparr>dragStartX := Some 700\<rparr>)"
    by (simp add: handleMouseMove_def draggingState_def Let_def)
  with ne a show ?thesis by simp
qed

text \<open>
  C10 as amended. A call of the handler never reads the sequence outside its indices: it
  returns a state whose anchor is the old anchor or the name of an element. When no period
  of a non-empty sequence has the anchor as its name (the lookup gives -1), a forward step
  (a drag to the left by more than the threshold) sets the anchor to the name of the first
  period, whose lookup index is 0, an index of the sequence; a backward step (a drag to the
  right by more than the threshold) leaves the anchor unchanged, and its lookup index stays
  -1. Both steps restart the drag at the current position.
\<close>

theorem navigation_step:
  "(\<exists>s'. handleMouseMove aggregated currentX s = Inr s' \<and>
      (selectedFilter s' = selectedFilter s \<or>
       list_ex (\<lambda>d. entryName d = selectedFilter s') aggregated)) \<and>
   (aggregated \<noteq> [] \<and> anchorIndex aggregated (selectedFilter s) = - 1 \<and>
    isDragging s \<and> isDataLoaded s \<and> dragStartX s = Some startX \<longrightarrow>
      (currentX - startX < - 100 \<longrightarrow>
         handleMouseMove aggregated currentX s
           = Inr (s\<lparr>selectedFilter := entryName (aggregated ! 0), dragStartX := Some currentX\<rparr>) \<and>
         anchorIndex aggregated (entryName (aggregated ! 0)) = 0 \<and>
         (0::int) \<le> int (length aggregated) - 1) \<and>
      (100 < currentX - startX \<longrightarrow>
         handleMouseMove aggregated currentX s = Inr (s\<lparr>dragStartX := Some currentX\<rparr>) \<and>
         anchorIndex aggregated (selectedFilter (s\<lparr>dragStartX := Some currentX\<rparr>)) = - 1))"
proof (intro conjI impI)
  let ?i = "anchorIndex aggregated (selectedFilter s)"
  have nm: "list_ex (\<lambda>d. entryName d = entryName (aggregated ! nat j)) aggregated"
    if "0 \<le> j" "j < int (length aggregated)" for j
  proof -
    from that have "aggregated ! nat j \<in> set aggregated" by simp
    then show ?thesis unfolding list_ex_iff by blast
  qed
  show "\<exists>s'. handleMouseMove aggregated currentX s = Inr s' \<and>
      (selectedFilter s' = selectedFilter s \<or>
       list_ex (\<lambda>d. entryName d = selectedFilter s') aggregated)"
  proof (cases "dragStartX s")
    case None
    then show ?thesis by (simp add: handleMouseMove_def)
  next
    case (Some x0)
    show ?thesis
    proof (cases "\<not> isDragging s \<or> \<not> isDataLoaded s \<or> \<not> \<bar>currentX - x0\<bar> > 100")
      case True
      with Some show ?thesis by (auto simp: handleMouseMove_def Let_def)
    next
      case False
      then have g: "isDragging s" "isDataLoaded s" "\<bar>currentX - x0\<bar> > 100" by auto
      show ?thesis
      proof (cases "currentX - x0 > 0")
        case bk: True
        show ?thesis
        proof (cases "?i > 0")
          case True
          with anchorIndex_range [of aggregated "selectedFilter s"]
          have r: "0 \<le> ?i - 1" "?i - 1 < int (length aggregated)" by auto
          from Some g bk True selectAt_in_range [OF r, of s]
          have "handleMouseMove aggregated currentX s
              = Inr (s\<lparr>selectedFilter := entryName (aggregated ! nat (?i - 1)),
                       dragStartX := Some currentX\<rparr>)"
            by (simp add: handleMouseMove_def Let_def anchorIndex_def)
          with nm [OF r] show ?thesis by simp
        next
          case False
          with Some g bk have "handleMouseMove aggregated currentX s
              = Inr (s\<lparr>dragStartX := Some currentX\<rparr>)"
            by (simp add: handleMouseMove_def Let_def anchorIndex_def)
          then show ?thesis by simp
        qed
      next
        case fw: False
        show ?thesis
        proof (cases "?i < int (length aggregated) - 1")
          case True
          with anchorIndex_range [of aggregated "selectedFilter s"]
          have r: "0 \<le> ?i + 1" "?i + 1 < int (length aggregated)" by auto
          from Some g fw True selectAt_in_range [OF r, of s]
          have "handleMouseMove aggregated currentX s
              = Inr (s\<lparr>selectedFilter := entryName (aggregated ! nat (?i + 1)),
                       dragStartX := Some currentX\<rparr>)"
            by (simp add: handleMouseMove_def Let_def anchorIndex_def)
          with nm [OF r] show ?thesis by simp
        next
          case False
          with Some g fw have "handleMouseMove aggregated currentX s
              = Inr (s\<lparr>dragStartX := Some currentX\<rparr>)"
            by (simp add: handleMouseMove_def Let_def anchorIndex_def)
          then show ?thesis by simp
        qed
      qed
    qed
  qed
next
  assume a: "aggregated \<noteq> [] \<and> anchorIndex aggregated (selectedFilter s) = - 1 \<and>
    isDragging s \<and> isDataLoaded s \<and> dragStartX s = Some startX"
  then have l: "0 < length aggregated" by simp
  {
    assume f: "currentX - startX < - 100"
    have r: "(0::int) \<le> - 1 + 1" "- 1 + 1 < int (length aggregated)" using l by simp_all
    from a f l selectAt_in_range [OF r, of s]
    show "handleMouseMove aggregated currentX s
           = Inr (s\<lparr>selectedFilter := entryName (aggregated ! 0), dragStartX := Some currentX\<rparr>)"
      by (simp add: handleMouseMove_def Let_def anchorIndex_def)
    from l obtain d ds where "aggregated = d # ds" by (cases aggregated) auto
    then show "anchorIndex aggregated (entryName (aggregated ! 0)) = 0"
      by (simp add: anchorIndex_def findIndex_first)
    from l show "(0::int) \<le> int (length aggregated) - 1" by simp
  }
  {
    assume b: "100 < currentX - startX"
    from a b show "handleMouseMove aggregated currentX s = Inr (s\<lparr>dragStartX := Some currentX\<rparr>)"
      by (simp add: handleMouseMove_def Let_def anchorIndex_def)
    from a show "anchorIndex aggregated (selectedFilter (s\<lparr>dragStartX := Some currentX\<rparr>)) = - 1"
      by simp
  }
qed

theorem navigation_step_witness:
  "marchEntries \<noteq> [] \<and> anchorIndex marchEntries (selectedFilter draggingState) = - 1 \<and>
   isDragging draggingState \<and> isDataLoaded draggingState \<and> dragStartX draggingState = Some 500 \<and>
   handleMouseMove marchEntries 300 draggingState
     = Inr (draggingState\<lparr>selectedFilter := entryName (marchEntries ! 0), dragStartX := Some 300\<rparr>) \<and>
   anchorIndex marchEntries (entryName (marchEntries ! 0)) = 0 \<and>
   handleMouseMove marchEntries 700 draggingState = Inr (draggingState\<lparr>dragStartX := Some 700\<rparr>)"
proof -
  have ne: "marchEntries \<noteq> []" using marchEntries_length by auto
  have a: "anchorIndex marchEntries (selectedFilter draggingState) = - 1"
    by (simp add: draggingState_def marchEntries_absent)
  have g: "isDragging draggingState" "isDataLoaded draggingState" "dragStartX draggingState = Some 500"
    by (simp_all add: draggingState_def)
  have f: "(300::real) - 500 < - 100" and b: "(100::real) < 700 - 500" by simp_all
  from navigation_step [of marchEntries 300 draggingState 500] ne a g f
  have x: "handleMouseMove marchEntries 300 draggingState
     = Inr (draggingState\<lparr>selectedFilter := entryName (marchEntries ! 0), dragStartX := Some 300\<rparr>)"
    "anchorIndex marchEntries (entryName (marchEntries ! 0)) = 0" by blast+
  from navigation_step [of marchEntries 700 draggingState 500] ne a g b
  have y: "handleMouseMove marchEntries 700 draggingState = Inr (draggingState\<lparr>dragStartX := Some 700\<rparr>)"
    by blast
  from ne a g x y show ?thesis by (intro conjI)
qed

end
